theory Spec2Isabelle
  imports Main "HOL-Library.Word"
begin

unbundle bit_operations_syntax

section \<open>Input event ring (kernel/event.c)\<close>

text \<open>
  The ring is a fixed array of 256 events with two 32-bit indices. The producer writes at
  \<open>queue_head\<close>, the consumer reads at \<open>queue_tail\<close>. The memory barriers of the source
  have no effect on a single-threaded run and are left out.
\<close>

type_synonym u8 = "8 word"
type_synonym u16 = "16 word"
type_synonym u32 = "32 word"
type_synonym u64 = "64 word"

record input_event =
  ev_type :: u8
  ev_subtype :: u8
  ev_code :: u16
  ev_x :: u32
  ev_y :: u32

record event_ring =
  event_queue :: "input_event list"
  queue_head :: u32
  queue_tail :: u32

definition EVENT_QUEUE_SIZE :: nat where
  "EVENT_QUEUE_SIZE = 256"

definition EVENT_QUEUE_MASK :: u32 where
  "EVENT_QUEUE_MASK = 255"

definition event_queue_init :: "event_ring \<Rightarrow> event_ring" where
  "event_queue_init r = r\<lparr>queue_head := 0, queue_tail := 0\<rparr>"

text \<open>\<open>event_push\<close> returns the new ring and the C return value (0 or -1).\<close>

definition event_push :: "event_ring \<Rightarrow> input_event \<Rightarrow> event_ring \<times> int" where
  "event_push r ev =
     (let next_head = (queue_head r + 1) AND EVENT_QUEUE_MASK in
      if next_head = queue_tail r then (r, -1)
      else (r\<lparr>event_queue := (event_queue r)[unat (queue_head r) := ev],
               queue_head := next_head\<rparr>, 0))"

definition event_pop :: "event_ring \<Rightarrow> event_ring \<times> (input_event option) \<times> int" where
  "event_pop r =
     (if queue_tail r = queue_head r then (r, None, -1)
      else (r\<lparr>queue_tail := (queue_tail r + 1) AND EVENT_QUEUE_MASK\<rparr>,
            Some (event_queue r ! unat (queue_tail r)), 0))"

definition event_count :: "event_ring \<Rightarrow> u32" where
  "event_count r = (queue_head r - queue_tail r) AND EVENT_QUEUE_MASK"

text \<open>A run of consecutive pushes: the final ring and the return value of each push.\<close>

fun push_all :: "event_ring \<Rightarrow> input_event list \<Rightarrow> event_ring \<times> int list" where
  "push_all r [] = (r, [])"
| "push_all r (e # es) =
     (case event_push r e of (r', rc) \<Rightarrow>
        (case push_all r' es of (r'', rcs) \<Rightarrow> (r'', rc # rcs)))"

text \<open>The indices stay below the ring size; the array has 256 slots.\<close>

definition ring_ok :: "event_ring \<Rightarrow> bool" where
  "ring_ok r \<longleftrightarrow> length (event_queue r) = EVENT_QUEUE_SIZE
     \<and> queue_head r < 256 \<and> queue_tail r < 256"


subsection \<open>Arithmetic of the ring indices\<close>

lemma unat_and_255: "unat ((w::u32) AND 255) = unat w mod 256"
proof -
  have a: "w AND 255 = take_bit 8 w" by (simp add: take_bit_eq_mask mask_eq_exp_minus_1)
  have b: "unat (take_bit 8 w) = take_bit 8 (unat w)" by (rule unsigned_take_bit_eq)
  have c: "take_bit 8 (unat w) = unat w mod 2 ^ 8" by (rule take_bit_eq_mod)
  have d: "(2::nat) ^ 8 = 256" by simp
  show ?thesis by (simp only: a b c d)
qed

lemma mod_256_small:
  fixes x :: nat
  assumes "x < 512"
  shows "x mod 256 = (if x < 256 then x else x - 256)"
proof (cases "x < 256")
  case True then show ?thesis by simp
next
  case False
  then have "x = (x - 256) + 256" by simp
  then have "x mod 256 = (x - 256) mod 256" by (metis mod_add_self2)
  then show ?thesis using False assms by simp
qed

lemma ring_arith1:
  fixes h t :: nat
  assumes "t < 256" "t \<le> h"
  shows "((h - t) mod 256 = 255) \<longleftrightarrow> ((h + 1) mod 256 = t)"
proof -
  define r where "r = (h - t) mod 256"
  have r: "r < 256" by (simp add: r_def)
  have "h + 1 = (h - t) + (t + 1)" using assms by simp
  then have "(h + 1) mod 256 = ((h - t) mod 256 + (t + 1)) mod 256"
    by (simp only: mod_add_left_eq)
  also have "\<dots> = (if r + (t + 1) < 256 then r + (t + 1) else r + (t + 1) - 256)"
    unfolding r_def[symmetric] using r assms by (intro mod_256_small) simp
  finally show ?thesis unfolding r_def[symmetric] using r assms by (auto split: if_splits)
qed

lemma ring_arith:
  fixes h t :: nat
  assumes "t < 256"
  shows "((if t \<le> h then h - t else h + 4294967296 - t) mod 256 = 255)
           \<longleftrightarrow> ((h + 1) mod 256 = t)"
proof (cases "t \<le> h")
  case True
  then show ?thesis using ring_arith1[OF assms True] by simp
next
  case False
  have "h + 4294967296 - t = (h + 256 - t) + 256 * 16777215" using assms by simp
  then have "(h + 4294967296 - t) mod 256 = (h + 256 - t) mod 256"
    by (simp only: mod_mult_self2)
  then show ?thesis using False assms by auto
qed

lemma unat_next_head: "unat ((h + 1) AND 255 :: u32) = (unat h + 1) mod 256"
proof -
  have "unat ((h + 1) AND 255) = ((unat h + 1) mod 4294967296) mod 256"
    unfolding unat_and_255 by (simp add: unat_word_ariths)
  also have "\<dots> = (unat h + 1) mod 256"
    by (rule mod_mod_cancel) simp
  finally show ?thesis .
qed

lemma event_count_full:
  assumes "queue_tail r < 256"
  shows "event_count r = 255 \<longleftrightarrow> (queue_head r + 1) AND 255 = queue_tail r"
proof -
  define h where "h = unat (queue_head r)"
  define t where "t = unat (queue_tail r)"
  have t: "t < 256" using assms by (simp add: t_def word_less_nat_alt)
  have a: "event_count r = 255 \<longleftrightarrow> unat (event_count r) = 255"
    by (simp add: word_unat_eq_iff)
  have b: "(queue_head r + 1) AND 255 = queue_tail r
             \<longleftrightarrow> unat ((queue_head r + 1) AND 255) = t"
    by (simp add: word_unat_eq_iff t_def)
  have c: "unat (event_count r) = (if t \<le> h then h - t else h + 4294967296 - t) mod 256"
    unfolding event_count_def EVENT_QUEUE_MASK_def unat_and_255 h_def t_def
    by (simp add: unat_sub_if' word_le_nat_alt)
  have d: "unat ((queue_head r + 1) AND 255) = (h + 1) mod 256"
    unfolding h_def by (rule unat_next_head)
  show ?thesis unfolding a b c d using ring_arith[OF t] by simp
qed

subsection \<open>Filling the ring from empty\<close>

lemma event_push_room:
  assumes "queue_tail r = 0" "unat (queue_head r) = k" "k < 255"
  shows "snd (event_push r e) = 0
       \<and> queue_tail (fst (event_push r e)) = 0
       \<and> unat (queue_head (fst (event_push r e))) = Suc k"
proof -
  have n: "unat ((queue_head r + 1) AND 255) = Suc k"
    using assms by (simp add: unat_next_head)
  then have "(queue_head r + 1) AND 255 \<noteq> 0"
    by (metis Zero_not_Suc unat_0)
  then show ?thesis using assms n
    by (simp add: event_push_def EVENT_QUEUE_MASK_def Let_def)
qed

lemma push_all_room:
  "queue_tail r = 0 \<Longrightarrow> unat (queue_head r) = k \<Longrightarrow> k + length es \<le> 255 \<Longrightarrow>
     snd (push_all r es) = replicate (length es) 0
   \<and> queue_tail (fst (push_all r es)) = 0
   \<and> unat (queue_head (fst (push_all r es))) = k + length es"
proof (induction es arbitrary: r k)
  case Nil
  then show ?case by simp
next
  case (Cons e es)
  have k: "k < 255" using Cons.prems by simp
  note one = event_push_room[OF Cons.prems(1) Cons.prems(2) k, of e]
  obtain r' rc where p: "event_push r e = (r', rc)" by (cases "event_push r e")
  with one have rc: "rc = 0" and t': "queue_tail r' = 0" and h': "unat (queue_head r') = Suc k"
    by simp_all
  have "Suc k + length es \<le> 255" using Cons.prems by simp
  note ih = Cons.IH[OF t' h' this]
  obtain r'' rcs where q: "push_all r' es = (r'', rcs)" by (cases "push_all r' es")
  with ih show ?case using p rc by simp
qed

lemma push_all_append:
  "snd (push_all r (es @ [e])) = snd (push_all r es) @ [snd (event_push (fst (push_all r es)) e)]"
proof (induction es arbitrary: r)
  case Nil
  show ?case by (simp split: prod.splits)
next
  case (Cons a es)
  obtain r' rc where p: "event_push r a = (r', rc)" by (cases "event_push r a")
  show ?case using Cons.IH[of r'] p by (auto split: prod.splits)
qed

lemma event_push_at_255:
  assumes "queue_tail r = 0" "unat (queue_head r) = 255"
  shows "snd (event_push r e) = -1"
proof -
  have "unat ((queue_head r + 1) AND 255) = 0"
    using assms by (simp add: unat_next_head)
  then have "(queue_head r + 1) AND 255 = 0"
    by (simp add: unat_eq_0)
  then show ?thesis using assms
    by (simp add: event_push_def EVENT_QUEUE_MASK_def Let_def)
qed

text \<open>
  Claim C5. \<open>event_push\<close> returns -1 exactly when \<open>(head + 1) mod 256 = tail\<close>, which for
  indices inside the ring is exactly when the ring holds 255 events; a push that returns
  -1 leaves the whole ring (array, head and tail) as it was; every other push returns 0;
  and from the empty ring 255 pushes in a row return 0 and the 256th returns -1.
\<close>

theorem event_push_full:
  assumes "ring_ok r"
  shows "(snd (event_push r ev) = -1 \<longleftrightarrow> (queue_head r + 1) AND 255 = queue_tail r)
       \<and> (snd (event_push r ev) = -1 \<longleftrightarrow> event_count r = 255)
       \<and> (snd (event_push r ev) = -1 \<longrightarrow> fst (event_push r ev) = r)
       \<and> (snd (event_push r ev) \<noteq> -1 \<longrightarrow> snd (event_push r ev) = 0)
       \<and> (length evs = 255 \<longrightarrow>
            snd (push_all (event_queue_init r) (evs @ [e])) = replicate 255 0 @ [-1])"
proof -
  have t: "queue_tail r < 256" using assms by (simp add: ring_ok_def)
  have a: "snd (event_push r ev) = -1 \<longleftrightarrow> (queue_head r + 1) AND 255 = queue_tail r"
    by (simp add: event_push_def EVENT_QUEUE_MASK_def Let_def)
  have b: "snd (event_push r ev) = -1 \<longrightarrow> fst (event_push r ev) = r"
    by (simp add: event_push_def Let_def)
  have c: "snd (event_push r ev) \<noteq> -1 \<longrightarrow> snd (event_push r ev) = 0"
    by (simp add: event_push_def Let_def)
  have d: "snd (push_all (event_queue_init r) (evs @ [e])) = replicate 255 0 @ [-1]"
    if len: "length evs = 255"
  proof -
    let ?r0 = "event_queue_init r"
    have t0: "queue_tail ?r0 = 0" and h0: "unat (queue_head ?r0) = 0"
      by (simp_all add: event_queue_init_def)
    have "0 + length evs \<le> 255" using len by simp
    note fill = push_all_room[OF t0 h0 this]
    have "snd (event_push (fst (push_all ?r0 evs)) e) = -1"
      using fill len by (intro event_push_at_255) simp_all
    then show ?thesis using fill len by (simp add: push_all_append)
  qed
  show ?thesis using a event_count_full[OF t] b c d by simp
qed

definition ev0 :: input_event where
  "ev0 = \<lparr>ev_type = 1, ev_subtype = 1, ev_code = 30, ev_x = 0, ev_y = 0\<rparr>"

definition ring_empty :: event_ring where
  "ring_empty = \<lparr>event_queue = replicate 256 ev0, queue_head = 0, queue_tail = 0\<rparr>"

definition ring_full :: event_ring where
  "ring_full = \<lparr>event_queue = replicate 256 ev0, queue_head = 255, queue_tail = 0\<rparr>"

theorem event_push_full_witness:
  "ring_ok ring_full \<and> ring_ok ring_empty
   \<and> snd (event_push ring_full ev0) = -1
   \<and> (queue_head ring_full + 1) AND 255 = queue_tail ring_full
   \<and> event_count ring_full = 255
   \<and> fst (event_push ring_full ev0) = ring_full
   \<and> snd (event_push ring_empty ev0) = 0
   \<and> length (replicate 255 ev0) = 255
   \<and> snd (push_all (event_queue_init ring_empty) (replicate 255 ev0 @ [ev0]))
       = replicate 255 0 @ [-1]"
proof -
  have f: "ring_ok ring_full" by (simp add: ring_ok_def ring_full_def EVENT_QUEUE_SIZE_def)
  have e: "ring_ok ring_empty" by (simp add: ring_ok_def ring_empty_def EVENT_QUEUE_SIZE_def)
  have p: "snd (event_push ring_full ev0) = -1"
    by (simp add: event_push_def ring_full_def EVENT_QUEUE_MASK_def)
  have q: "snd (event_push ring_empty ev0) = 0"
    by (simp add: event_push_def ring_empty_def EVENT_QUEUE_MASK_def)
  show ?thesis
    using event_push_full[OF f, of ev0 "[]" ev0]
      event_push_full[OF e, of ev0 "replicate 255 ev0" ev0] f e p q
    by simp
qed


section \<open>URL parsing (kernel/http.c)\<close>

text \<open>
  A C string is modelled by the list of its characters; the end of the list stands for
  the terminating NUL, so reading \<open>*p\<close> at the end of the list yields NUL. A pointer
  into a string is the remaining suffix.
\<close>

definition NUL :: char where
  "NUL = CHR 0x00"

definition deref :: "string \<Rightarrow> char" where
  "deref p = (case p of [] \<Rightarrow> NUL | c # _ \<Rightarrow> c)"

definition HTTP_MAX_HOST :: nat where
  "HTTP_MAX_HOST = 64"

definition HTTP_MAX_PATH :: nat where
  "HTTP_MAX_PATH = 128"

record http_url =
  url_host :: string
  url_path :: string
  url_port :: u16
  url_is_https :: int

text \<open>\<open>str_ncmp\<close>: the loop runs while \<open>n > 0\<close>, both characters are non-NUL and equal.\<close>

fun str_ncmp :: "string \<Rightarrow> string \<Rightarrow> nat \<Rightarrow> int" where
  "str_ncmp a b 0 = 0"
| "str_ncmp a b (Suc n) =
     (if deref a \<noteq> NUL \<and> deref b \<noteq> NUL \<and> deref a = deref b
      then str_ncmp (tl a) (tl b) n
      else int (of_char (deref a)) - int (of_char (deref b)))"

text \<open>
  \<open>str_cpy dst src max\<close> copies at most \<open>max - 1\<close> characters up to the NUL of \<open>src\<close>
  and terminates \<open>dst\<close>; the result is the new content of \<open>dst\<close>.
\<close>

fun str_cpy_loop :: "string \<Rightarrow> nat \<Rightarrow> string" where
  "str_cpy_loop [] n = []"
| "str_cpy_loop (c # cs) n =
     (if 0 < n \<and> c \<noteq> NUL then c # str_cpy_loop cs (n - 1) else [])"

definition str_cpy :: "string \<Rightarrow> nat \<Rightarrow> string" where
  "str_cpy src maxlen = str_cpy_loop src (maxlen - 1)"

text \<open>
  The host loop: \<open>while (*p && *p != ':' && *p != '/' && host_len < HTTP_MAX_HOST - 1)\<close>.
  It returns the host collected so far and the pointer where it stopped.
\<close>

fun parse_host :: "string \<Rightarrow> string \<Rightarrow> string \<times> string" where
  "parse_host [] host = (host, [])"
| "parse_host (c # cs) host =
     (if c \<noteq> NUL \<and> c \<noteq> CHR '':'' \<and> c \<noteq> CHR ''/'' \<and> length host < HTTP_MAX_HOST - 1
      then parse_host cs (host @ [c])
      else (host, c # cs))"

definition is_digit :: "char \<Rightarrow> bool" where
  "is_digit c \<longleftrightarrow> (48::nat) \<le> of_char c \<and> (of_char c :: nat) \<le> 57"

text \<open>The port loop; the port is a \<open>uint16_t\<close>, so the accumulation wraps at \<open>2^16\<close>.\<close>

definition port_step :: "u16 \<Rightarrow> char \<Rightarrow> u16" where
  "port_step port c = port * 10 + of_nat (of_char c - 48)"

fun parse_port :: "string \<Rightarrow> u16 \<Rightarrow> u16 \<times> string" where
  "parse_port [] port = (port, [])"
| "parse_port (c # cs) port =
     (if is_digit c then parse_port cs (port_step port c) else (port, c # cs))"

definition http_parse_url :: "string \<Rightarrow> http_url \<times> int" where
  "http_parse_url url =
     (let parsed0 = \<lparr>url_host = [], url_path = str_cpy ''/'' HTTP_MAX_PATH,
                     url_port = 80, url_is_https = 0\<rparr>;
          (parsed1, p1) =
            (if str_ncmp url ''https://'' 8 = 0
             then (parsed0\<lparr>url_is_https := 1, url_port := 443\<rparr>, drop 8 url)
             else if str_ncmp url ''http://'' 7 = 0 then (parsed0, drop 7 url)
             else (parsed0, url));
          (h, p2) = parse_host p1 [];
          parsed2 = parsed1\<lparr>url_host := h\<rparr>
      in if length h = 0 then (parsed2, -1)
         else
           let (parsed3, p3) =
                 (if deref p2 = CHR '':''
                  then (case parse_port (tl p2) 0 of
                          (pt, p') \<Rightarrow> (parsed2\<lparr>url_port := pt\<rparr>, p'))
                  else (parsed2, p2));
               parsed4 =
                 (if deref p3 = CHR ''/''
                  then parsed3\<lparr>url_path := str_cpy p3 HTTP_MAX_PATH\<rparr>
                  else parsed3)
           in (parsed4, 0))"

text \<open>
  The result of the parser on a scheme-less string, in closed form: what the host loop,
  the port loop and \<open>str_cpy\<close> compute, read off the code. The host loop stops after 63
  characters, and then neither port nor path is looked at; the port is accumulated in 16
  bits over the digits after the colon (none gives 0); the path is copied only when the
  character after that is a slash, at most 127 characters of it.
\<close>

definition host_char :: "char \<Rightarrow> bool" where
  "host_char c \<longleftrightarrow> c \<noteq> CHR '':'' \<and> c \<noteq> CHR ''/''"

definition path_or_default :: "string \<Rightarrow> string" where
  "path_or_default p = (if deref p = CHR ''/'' then take 127 p else ''/'')"

definition parsed_closed_form :: "string \<Rightarrow> http_url" where
  "parsed_closed_form url =
     (let seg = takeWhile host_char url; rest = dropWhile host_char url in
      if 63 < length seg
      then \<lparr>url_host = take 63 seg, url_path = ''/'', url_port = 80, url_is_https = 0\<rparr>
      else if deref rest = CHR '':''
      then \<lparr>url_host = seg,
            url_path = path_or_default (dropWhile is_digit (tl rest)),
            url_port = foldl port_step 0 (takeWhile is_digit (tl rest)),
            url_is_https = 0\<rparr>
      else \<lparr>url_host = seg, url_path = path_or_default rest, url_port = 80,
            url_is_https = 0\<rparr>)"

subsection \<open>The loops of the parser in closed form\<close>


lemma str_ncmp_literal:
  "NUL \<notin> set b \<Longrightarrow> str_ncmp a b (length b) = 0 \<longleftrightarrow> take (length b) a = b"
proof (induction b arbitrary: a)
  case Nil
  then show ?case by simp
next
  case (Cons c cs)
  show ?case
  proof (cases a)
    case Nil
    then show ?thesis using Cons.prems by (auto simp: deref_def)
  next
    case (Cons d ds)
    then show ?thesis using Cons.prems Cons.IH[of ds]
      by (auto simp: deref_def)
  qed
qed

lemma str_cpy_loop_take: "NUL \<notin> set src \<Longrightarrow> str_cpy_loop src n = take n src"
  by (induction src arbitrary: n) (auto simp: take_Cons')

lemma parse_host_acc:
  "NUL \<notin> set p \<Longrightarrow> length acc \<le> 63 \<Longrightarrow>
   parse_host p acc =
     (acc @ take (63 - length acc) (takeWhile host_char p),
      drop (length (take (63 - length acc) (takeWhile host_char p))) p)"
proof (induction p arbitrary: acc)
  case Nil
  then show ?case by simp
next
  case (Cons c cs)
  show ?case
  proof (cases "host_char c \<and> length acc < 63")
    case True
    then show ?thesis using Cons.prems Cons.IH[of "acc @ [c]"]
      by (auto simp: HTTP_MAX_HOST_def host_char_def take_Cons' Suc_diff_Suc)
  next
    case False
    then show ?thesis using Cons.prems
      by (auto simp: HTTP_MAX_HOST_def host_char_def)
  qed
qed

lemma parse_port_fold:
  "parse_port p acc = (foldl port_step acc (takeWhile is_digit p), dropWhile is_digit p)"
  by (induction p arbitrary: acc) auto


lemma str_cpy_take: "NUL \<notin> set src \<Longrightarrow> str_cpy src n = take (n - 1) src"
  by (simp add: str_cpy_def str_cpy_loop_take)

lemma str_cpy_slash: "str_cpy ''/'' HTTP_MAX_PATH = ''/''"
  by (simp add: str_cpy_def HTTP_MAX_PATH_def NUL_def)

lemma NUL_dropWhile: "NUL \<notin> set xs \<Longrightarrow> NUL \<notin> set (dropWhile P xs)"
  by (meson set_dropWhileD)

lemma NUL_tl: "NUL \<notin> set xs \<Longrightarrow> NUL \<notin> set (tl xs)"
  by (cases xs) auto

lemma path_cpy:
  "NUL \<notin> set p \<Longrightarrow> deref p = CHR ''/'' \<Longrightarrow> str_cpy p HTTP_MAX_PATH = path_or_default p"
  by (simp add: path_or_default_def str_cpy_take HTTP_MAX_PATH_def)

lemma path_default: "deref p \<noteq> CHR ''/'' \<Longrightarrow> path_or_default p = ''/''"
  by (simp add: path_or_default_def)

lemma deref_long_seg:
  assumes "63 < length (takeWhile host_char url)"
  shows "host_char (deref (drop 63 url))"
proof -
  let ?seg = "takeWhile host_char url"
  have "url = ?seg @ dropWhile host_char url" by simp
  then have "drop 63 url = drop 63 ?seg @ dropWhile host_char url"
    using assms by (metis drop_append less_imp_le_nat diff_is_0_eq' drop0 less_or_eq_imp_le)
  moreover have "drop 63 ?seg \<noteq> []" using assms by simp
  ultimately have "deref (drop 63 url) = hd (drop 63 ?seg)"
    by (cases "drop 63 ?seg") (auto simp: deref_def)
  moreover have "hd (drop 63 ?seg) \<in> set ?seg"
    using \<open>drop 63 ?seg \<noteq> []\<close> by (meson hd_in_set in_set_dropD)
  ultimately show ?thesis by (metis set_takeWhileD)
qed

lemma deref_rest:
  assumes "deref (dropWhile host_char url) \<noteq> CHR '':''"
    and "deref (dropWhile host_char url) \<noteq> CHR ''/''"
  shows "dropWhile host_char url = []"
proof (cases "dropWhile host_char url")
  case Nil
  then show ?thesis .
next
  case (Cons a list)
  then have "\<not> host_char a" using hd_dropWhile[of host_char url] by auto
  then show ?thesis using assms Cons by (auto simp: deref_def host_char_def)
qed

lemma str_ncmp_https: "str_ncmp url ''https://'' 8 = 0 \<longleftrightarrow> take 8 url = ''https://''"
proof -
  have l: "length ''https://'' = 8" by simp
  have "str_ncmp url ''https://'' (length ''https://'') = 0
          \<longleftrightarrow> take (length ''https://'') url = ''https://''"
    by (rule str_ncmp_literal) (simp add: NUL_def)
  then show ?thesis unfolding l .
qed

lemma str_ncmp_http: "str_ncmp url ''http://'' 7 = 0 \<longleftrightarrow> take 7 url = ''http://''"
proof -
  have l: "length ''http://'' = 7" by simp
  have "str_ncmp url ''http://'' (length ''http://'') = 0
          \<longleftrightarrow> take (length ''http://'') url = ''http://''"
    by (rule str_ncmp_literal) (simp add: NUL_def)
  then show ?thesis unfolding l .
qed

text \<open>
  On a C string that starts with neither \<open>http://\<close> nor \<open>https://\<close> and whose leading
  segment up to \<open>:\<close> or \<open>/\<close> is not empty, \<open>http_parse_url\<close> returns 0 with the closed
  form above.
\<close>

lemma http_parse_url_closed_form:
  assumes nul: "NUL \<notin> set url"
    and http: "take 7 url \<noteq> ''http://''"
    and https: "take 8 url \<noteq> ''https://''"
    and seg: "takeWhile host_char url \<noteq> []"
  shows "http_parse_url url = (parsed_closed_form url, 0)"
proof -
  let ?seg = "takeWhile host_char url"
  let ?rest = "dropWhile host_char url"
  have a: "str_ncmp url ''https://'' 8 \<noteq> 0"
    using https by (simp only: str_ncmp_https not_False_eq_True)
  have b: "str_ncmp url ''http://'' 7 \<noteq> 0"
    using http by (simp only: str_ncmp_http not_False_eq_True)
  have ph: "parse_host url [] = (take 63 ?seg, drop (length (take 63 ?seg)) url)"
    using parse_host_acc[OF nul, of "[]"] by simp
  have h0: "take 63 ?seg \<noteq> []" using seg by (cases ?seg) auto
  show ?thesis
  proof (cases "63 < length ?seg")
    case True
    then have l: "length (take 63 ?seg) = 63" by simp
    have hc: "host_char (deref (drop 63 url))" by (rule deref_long_seg[OF True])
    then have "deref (drop 63 url) \<noteq> CHR '':''" "deref (drop 63 url) \<noteq> CHR ''/''"
      by (auto simp: host_char_def)
    then show ?thesis using True a b ph l h0
      by (simp add: http_parse_url_def parsed_closed_form_def Let_def str_cpy_slash)
  next
    case False
    then have t: "take 63 ?seg = ?seg" by simp
    have d: "drop (length ?seg) url = ?rest"
      by (metis append_eq_conv_conj takeWhile_dropWhile_id)
    have nr: "NUL \<notin> set ?rest" by (rule NUL_dropWhile[OF nul])
    show ?thesis
    proof (cases "deref ?rest = CHR '':''")
      case True
      have np: "NUL \<notin> set (dropWhile is_digit (tl ?rest))"
        by (intro NUL_dropWhile NUL_tl nr)
      show ?thesis using True False a b ph t d seg path_cpy[OF np]
        by (simp add: http_parse_url_def parsed_closed_form_def Let_def str_cpy_slash
            parse_port_fold path_default)
    next
      case nc: False
      show ?thesis using nc False a b ph t d seg path_cpy[OF nr]
        by (simp add: http_parse_url_def parsed_closed_form_def Let_def str_cpy_slash
            path_default)
    qed
  qed
qed

subsection \<open>The form \<open>host[:port][/path]\<close>\<close>

text \<open>
  The text \<open>host[:port][/path]\<close>: a host, then optionally a colon and a decimal port,
  then optionally a path that starts with a slash. The host is well formed when it is not
  empty, has at most 63 characters and contains neither \<open>:\<close> nor \<open>/\<close>; the port when it has
  at least one digit, only digits, and a value below 65536. An absent port reads as 80, an
  absent path as \<open>/\<close>; of a path the first 127 characters are kept.
\<close>

definition digit_value :: "char \<Rightarrow> nat" where
  "digit_value c = of_char c - 48"

definition decimal :: "string \<Rightarrow> nat" where
  "decimal ds = foldl (\<lambda>n c. 10 * n + digit_value c) 0 ds"

definition url_text :: "string \<Rightarrow> string option \<Rightarrow> string \<Rightarrow> string" where
  "url_text h port p = h @ (case port of None \<Rightarrow> [] | Some ds \<Rightarrow> CHR '':'' # ds) @ p"

definition host_ok :: "string \<Rightarrow> bool" where
  "host_ok h \<longleftrightarrow> h \<noteq> [] \<and> length h \<le> 63 \<and> list_all host_char h"

definition port_ok :: "string option \<Rightarrow> bool" where
  "port_ok port \<longleftrightarrow>
     (case port of None \<Rightarrow> True
      | Some ds \<Rightarrow> ds \<noteq> [] \<and> list_all is_digit ds \<and> decimal ds < 65536)"

definition path_ok :: "string \<Rightarrow> bool" where
  "path_ok p \<longleftrightarrow> p = [] \<or> hd p = CHR ''/''"

definition port_of :: "string option \<Rightarrow> u16" where
  "port_of port = (case port of None \<Rightarrow> 80 | Some ds \<Rightarrow> of_nat (decimal ds))"

definition path_of :: "string \<Rightarrow> string" where
  "path_of p = (if p = [] then ''/'' else take 127 p)"

lemma port_fold_decimal:
  "foldl port_step (of_nat n) ds = of_nat (foldl (\<lambda>n c. 10 * n + digit_value c) n ds)"
proof (induction ds arbitrary: n)
  case Nil
  then show ?case by simp
next
  case (Cons c ds)
  have "port_step (of_nat n) c = of_nat (10 * n + digit_value c)"
    by (simp add: port_step_def digit_value_def)
  then show ?case using Cons.IH [of "10 * n + digit_value c"] by simp
qed

lemma port_decimal: "foldl port_step 0 ds = of_nat (decimal ds)"
  using port_fold_decimal [of 0 ds] by (simp add: decimal_def)

lemma seg_split:
  assumes "list_all P xs" and "r = [] \<or> \<not> P (hd r)"
  shows "takeWhile P (xs @ r) = xs" and "dropWhile P (xs @ r) = r"
proof -
  have a: "\<forall>x \<in> set xs. P x" using assms(1) by (simp add: list_all_iff)
  have "takeWhile P r = []" using assms(2) by (cases r) auto
  then show "takeWhile P (xs @ r) = xs" using a by (simp add: takeWhile_append2)
  have "dropWhile P r = r" using assms(2) by (cases r) auto
  then show "dropWhile P (xs @ r) = r" using a by (simp add: dropWhile_append2)
qed

lemma closed_form_text:
  assumes h: "host_ok h" and pt: "port_ok port" and p: "path_ok p"
  shows "parsed_closed_form (url_text h port p) =
    \<lparr>url_host = h, url_path = path_of p, url_port = port_of port, url_is_https = 0\<rparr>"
proof -
  have pd: "p = [] \<or> \<not> is_digit (hd p)"
    using p by (auto simp: path_ok_def is_digit_def)
  have pp: "path_or_default p = path_of p"
    using p by (cases p) (auto simp: path_or_default_def path_of_def path_ok_def deref_def NUL_def)
  show ?thesis
  proof (cases port)
    case None
    have r: "p = [] \<or> \<not> host_char (hd p)"
      using p by (auto simp: path_ok_def host_char_def)
    have s: "takeWhile host_char (h @ p) = h" "dropWhile host_char (h @ p) = p"
      using seg_split [of host_char h p] h r by (auto simp: host_ok_def)
    have "deref p \<noteq> CHR '':''"
      using p by (cases p) (auto simp: path_ok_def deref_def NUL_def)
    then show ?thesis
      using None h pp by (simp add: parsed_closed_form_def url_text_def s Let_def host_ok_def port_of_def)
  next
    case (Some ds)
    have s: "takeWhile host_char (h @ CHR '':'' # ds @ p) = h"
      "dropWhile host_char (h @ CHR '':'' # ds @ p) = CHR '':'' # ds @ p"
      using seg_split [of host_char h "CHR '':'' # ds @ p"] h
      by (auto simp: host_ok_def host_char_def)
    have d: "takeWhile is_digit (ds @ p) = ds" "dropWhile is_digit (ds @ p) = p"
      using seg_split [of is_digit ds p] pt pd Some by (auto simp: port_ok_def)
    show ?thesis
      using Some h pp d
      by (simp add: parsed_closed_form_def url_text_def s Let_def host_ok_def port_of_def deref_def
          port_decimal)
  qed
qed

text \<open>
  C10 (scheme-less URLs), amended. For every C string that starts with neither \<open>http://\<close>
  nor \<open>https://\<close> and whose leading segment up to \<open>:\<close> or \<open>/\<close> is not empty,
  \<open>http_parse_url\<close> returns 0 with \<open>is_https = 0\<close>; and whenever the string is the text
  \<open>host[:port][/path]\<close> of a well-formed host, port and path, the result holds that host,
  that port (80 when absent) and that path (\<open>/\<close> when absent, cut to 127 characters).
\<close>

theorem http_parse_url_host_port_path:
  assumes nul: "NUL \<notin> set url"
    and http: "take 7 url \<noteq> ''http://''"
    and https: "take 8 url \<noteq> ''https://''"
    and seg: "takeWhile host_char url \<noteq> []"
  shows "snd (http_parse_url url) = 0 \<and> url_is_https (fst (http_parse_url url)) = 0 \<and>
    (\<forall>h port p. url = url_text h port p \<and> host_ok h \<and> port_ok port \<and> path_ok p \<longrightarrow>
       fst (http_parse_url url) =
         \<lparr>url_host = h, url_path = path_of p, url_port = port_of port, url_is_https = 0\<rparr>)"
proof -
  have c: "http_parse_url url = (parsed_closed_form url, 0)"
    using nul http https seg by (rule http_parse_url_closed_form)
  have "url_is_https (parsed_closed_form url) = 0"
    by (simp add: parsed_closed_form_def Let_def)
  then show ?thesis using c closed_form_text by auto
qed

theorem http_parse_url_host_port_path_witness:
  "http_parse_url ''example.com:8080/a?b'' =
     (\<lparr>url_host = ''example.com'', url_path = ''/a?b'', url_port = 8080, url_is_https = 0\<rparr>, 0)
   \<and> http_parse_url ''localhost'' =
     (\<lparr>url_host = ''localhost'', url_path = ''/'', url_port = 80, url_is_https = 0\<rparr>, 0)"
proof -
  have 1: "NUL \<notin> set ''example.com:8080/a?b''" "NUL \<notin> set ''localhost''"
    by (simp_all add: NUL_def)
  have 2: "take 7 ''example.com:8080/a?b'' \<noteq> ''http://''" "take 7 ''localhost'' \<noteq> ''http://''"
    by simp_all
  have 3: "take 8 ''example.com:8080/a?b'' \<noteq> ''https://''" "take 8 ''localhost'' \<noteq> ''https://''"
    by simp_all
  have 4: "takeWhile host_char ''example.com:8080/a?b'' \<noteq> []"
    "takeWhile host_char ''localhost'' \<noteq> []"
    by (simp_all add: host_char_def)
  have t: "''example.com:8080/a?b'' = url_text ''example.com'' (Some ''8080'') ''/a?b''"
    "''localhost'' = url_text ''localhost'' None []"
    by (simp_all add: url_text_def)
  have ok: "host_ok ''example.com''" "port_ok (Some ''8080'')" "path_ok ''/a?b''"
    "host_ok ''localhost''" "port_ok None" "path_ok []"
    by (simp_all add: host_ok_def port_ok_def path_ok_def host_char_def is_digit_def decimal_def
        digit_value_def)
  have v: "port_of (Some ''8080'') = 8080" "path_of ''/a?b'' = ''/a?b''" "port_of None = 80"
    "path_of [] = ''/''"
    by (simp_all add: port_of_def path_of_def decimal_def digit_value_def)
  note A = http_parse_url_host_port_path [OF 1(1) 2(1) 3(1) 4(1)]
  from A have "fst (http_parse_url ''example.com:8080/a?b'') =
      \<lparr>url_host = ''example.com'', url_path = path_of ''/a?b'', url_port = port_of (Some ''8080''),
         url_is_https = 0\<rparr>"
    using t(1) ok(1-3) by blast
  moreover from A have "snd (http_parse_url ''example.com:8080/a?b'') = 0" by blast
  ultimately have a: "http_parse_url ''example.com:8080/a?b'' =
     (\<lparr>url_host = ''example.com'', url_path = ''/a?b'', url_port = 8080, url_is_https = 0\<rparr>, 0)"
    by (simp only: prod_eq_iff fst_conv snd_conv v simp_thms)
  note B = http_parse_url_host_port_path [OF 1(2) 2(2) 3(2) 4(2)]
  from B have "fst (http_parse_url ''localhost'') =
      \<lparr>url_host = ''localhost'', url_path = path_of [], url_port = port_of None, url_is_https = 0\<rparr>"
    using t(2) ok(4-6) by blast
  moreover from B have "snd (http_parse_url ''localhost'') = 0" by blast
  ultimately have b: "http_parse_url ''localhost'' =
     (\<lparr>url_host = ''localhost'', url_path = ''/'', url_port = 80, url_is_https = 0\<rparr>, 0)"
    by (simp only: prod_eq_iff fst_conv snd_conv v simp_thms)
  show ?thesis using a b by (rule conjI)
qed

text \<open>
  The claim as worded fails on a host of 64 characters: the string below starts with no
  scheme and its leading segment is not empty, yet its port 81 and its path \<open>/z\<close> are not
  parsed; the result has the first 63 characters of the host, port 80 and path \<open>/\<close>.
\<close>

definition long_host_url :: string where
  "long_host_url = replicate 64 (CHR ''a'') @ '':81/z''"

theorem http_parse_url_long_host:
  "take 7 long_host_url \<noteq> ''http://'' \<and> take 8 long_host_url \<noteq> ''https://'' \<and>
   takeWhile host_char long_host_url = replicate 64 (CHR ''a'') \<and>
   http_parse_url long_host_url =
     (\<lparr>url_host = replicate 63 (CHR ''a''), url_path = ''/'', url_port = 80, url_is_https = 0\<rparr>, 0)"
  by code_simp


section \<open>TCP (kernel/tcp.c)\<close>

text \<open>
  The connection table, the counters of \<open>tcp.c\<close> and the parts of the network state that
  \<open>send_tcp_packet\<close> reads (driver availability, configuration, ARP cache of \<open>net.c\<close>)
  form one state record. Frames handed to the driver are appended to \<open>tx_log\<close>; a TCP
  frame is recorded by the header fields that \<open>send_tcp_packet\<close> writes and its payload.
\<close>

datatype tcp_state =
  TCP_CLOSED | TCP_SYN_SENT | TCP_ESTABLISHED | TCP_FIN_WAIT_1 | TCP_FIN_WAIT_2
  | TCP_CLOSE_WAIT | TCP_LAST_ACK | TCP_TIME_WAIT

definition TCP_FIN :: u8 where "TCP_FIN = 0x01"
definition TCP_SYN :: u8 where "TCP_SYN = 0x02"
definition TCP_RST :: u8 where "TCP_RST = 0x04"
definition TCP_PSH :: u8 where "TCP_PSH = 0x08"
definition TCP_ACK :: u8 where "TCP_ACK = 0x10"

definition MAX_TCP_CONNS :: nat where
  "MAX_TCP_CONNS = 4"

definition TCP_RX_BUF_SIZE :: nat where
  "TCP_RX_BUF_SIZE = 4096"

record tcp_conn =
  tc_state :: tcp_state
  tc_remote_ip :: "u8 list"
  tc_local_port :: u16
  tc_remote_port :: u16
  tc_seq_num :: u32
  tc_ack_num :: u32
  tc_last_ack_sent :: u32
  tc_rx_buffer :: "u8 list"
  tc_rx_len :: int
  tc_rx_ready :: int
  tc_timeout_tick :: u32
  tc_retries :: int

record arp_entry =
  arp_ip :: "u8 list"
  arp_mac :: "u8 list"
  arp_valid :: bool

record tcp_frame =
  tf_dest_mac :: "u8 list"
  tf_src_ip :: "u8 list"
  tf_dest_ip :: "u8 list"
  tf_src_port :: u16
  tf_dest_port :: u16
  tf_seq :: u32
  tf_ack :: u32
  tf_flags :: u8
  tf_payload :: "u8 list"

datatype tx_frame = TX_TCP tcp_frame | TX_ARP_REQUEST "u8 list"

record tcp_world =
  connections :: "tcp_conn list"
  next_local_port :: u16
  tcp_ticks :: u32
  isn_seed :: u32
  net_available :: bool
  cfg_configured :: bool
  cfg_ip :: "u8 list"
  cfg_gateway :: "u8 list"
  arp_cache :: "arp_entry list"
  tx_log :: "tx_frame list"

definition ip_match :: "u8 list \<Rightarrow> u8 list \<Rightarrow> bool" where
  "ip_match a b \<longleftrightarrow> a ! 0 = b ! 0 \<and> a ! 1 = b ! 1 \<and> a ! 2 = b ! 2 \<and> a ! 3 = b ! 3"

text \<open>\<open>net_arp_lookup\<close>: the MAC of the first valid entry for the address, if any.\<close>

fun net_arp_lookup :: "arp_entry list \<Rightarrow> u8 list \<Rightarrow> u8 list option" where
  "net_arp_lookup [] ip = None"
| "net_arp_lookup (e # es) ip =
     (if arp_valid e \<and> ip_match (arp_ip e) ip then Some (arp_mac e)
      else net_arp_lookup es ip)"

text \<open>A \<open>for\<close> loop over the table that returns the first index that matches, or -1.\<close>

definition first_index :: "('a \<Rightarrow> bool) \<Rightarrow> 'a list \<Rightarrow> int" where
  "first_index P xs =
     (case filter (\<lambda>i. P (xs ! i)) [0..<min MAX_TCP_CONNS (length xs)] of
        [] \<Rightarrow> -1 | i # _ \<Rightarrow> int i)"

definition find_free_conn :: "tcp_world \<Rightarrow> int" where
  "find_free_conn w = first_index (\<lambda>c. tc_state c = TCP_CLOSED) (connections w)"

definition find_conn :: "tcp_world \<Rightarrow> u8 list \<Rightarrow> u16 \<Rightarrow> u16 \<Rightarrow> int" where
  "find_conn w ip local_port remote_port =
     first_index (\<lambda>c. tc_state c \<noteq> TCP_CLOSED \<and> tc_local_port c = local_port
                      \<and> tc_remote_port c = remote_port \<and> ip_match ip (tc_remote_ip c))
       (connections w)"

definition get_initial_seq :: "u32 \<Rightarrow> u32" where
  "get_initial_seq seed = seed * 1103515245 + 12345"

definition conn_update :: "tcp_world \<Rightarrow> nat \<Rightarrow> (tcp_conn \<Rightarrow> tcp_conn) \<Rightarrow> tcp_world" where
  "conn_update w idx f = w\<lparr>connections := (connections w)[idx := f (connections w ! idx)]\<rparr>"

text \<open>
  \<open>send_tcp_packet\<close>: nothing happens unless the driver is available and the
  network configured; without a MAC for the gateway an ARP request goes out instead and
  the segment is dropped; otherwise the frame goes to the driver and the sequence number
  advances by one for SYN, one for FIN and by the payload length.
\<close>

definition send_tcp_packet :: "tcp_world \<Rightarrow> nat \<Rightarrow> u8 \<Rightarrow> u8 list \<Rightarrow> tcp_world" where
  "send_tcp_packet w idx flags data =
     (if \<not> net_available w \<or> \<not> cfg_configured w then w
      else case net_arp_lookup (arp_cache w) (cfg_gateway w) of
        None \<Rightarrow> w\<lparr>tx_log := tx_log w @ [TX_ARP_REQUEST (cfg_gateway w)]\<rparr>
      | Some dest_mac \<Rightarrow>
          (let conn = connections w ! idx;
               frame = \<lparr>tf_dest_mac = dest_mac, tf_src_ip = cfg_ip w,
                        tf_dest_ip = tc_remote_ip conn,
                        tf_src_port = tc_local_port conn, tf_dest_port = tc_remote_port conn,
                        tf_seq = tc_seq_num conn, tf_ack = tc_ack_num conn,
                        tf_flags = flags, tf_payload = data\<rparr>;
               w1 = w\<lparr>tx_log := tx_log w @ [TX_TCP frame]\<rparr>;
               s1 = (if flags AND TCP_SYN \<noteq> 0 then tc_seq_num conn + 1 else tc_seq_num conn);
               s2 = (if flags AND TCP_FIN \<noteq> 0 then s1 + 1 else s1);
               s3 = (if 0 < length data then s2 + of_nat (length data) else s2)
           in conn_update w1 idx (\<lambda>c. c\<lparr>tc_seq_num := s3\<rparr>)))"

definition zero_conn :: tcp_conn where
  "zero_conn = \<lparr>tc_state = TCP_CLOSED, tc_remote_ip = [0, 0, 0, 0], tc_local_port = 0,
     tc_remote_port = 0, tc_seq_num = 0, tc_ack_num = 0, tc_last_ack_sent = 0,
     tc_rx_buffer = replicate TCP_RX_BUF_SIZE 0, tc_rx_len = 0, tc_rx_ready = 0,
     tc_timeout_tick = 0, tc_retries = 0\<rparr>"

definition tcp_connect :: "tcp_world \<Rightarrow> u8 list \<Rightarrow> u16 \<Rightarrow> tcp_world \<times> int" where
  "tcp_connect w ip port =
     (if \<not> cfg_configured w then (w, -1)
      else let idx = find_free_conn w in
        if idx < 0 then (w, -1)
        else
          (let lp = next_local_port w;
               nlp = (if lp + 1 > 65000 then 49152 else lp + 1);
               iss = get_initial_seq (isn_seed w);
               conn = zero_conn\<lparr>tc_remote_ip := take 4 ip, tc_remote_port := port,
                        tc_local_port := lp, tc_seq_num := iss, tc_ack_num := 0,
                        tc_state := TCP_SYN_SENT, tc_timeout_tick := tcp_ticks w + 500,
                        tc_retries := 0, tc_rx_len := 0, tc_rx_ready := 0\<rparr>;
               w1 = w\<lparr>connections := (connections w)[nat idx := conn],
                       next_local_port := nlp, isn_seed := iss\<rparr>
           in (send_tcp_packet w1 (nat idx) TCP_SYN [], idx)))"

text \<open>
  \<open>tcp_recv\<close> returns the new state, the bytes copied into the caller's buffer and the
  C return value. The \<open>memmove\<close> shifts the unread bytes to the front of the buffer.
  (A negative \<open>max_len\<close> would make the length of the \<open>memcpy\<close> wrap; callers pass
  the size of their buffer.)
\<close>

definition tcp_recv :: "tcp_world \<Rightarrow> int \<Rightarrow> int \<Rightarrow> tcp_world \<times> u8 list \<times> int" where
  "tcp_recv w idx max_len =
     (if idx < 0 \<or> idx \<ge> int MAX_TCP_CONNS then (w, [], -1)
      else let conn = connections w ! nat idx in
        if tc_rx_len conn = 0 then (w, [], 0)
        else
          (let to_copy = (if tc_rx_len conn > max_len then max_len else tc_rx_len conn);
               out = take (nat to_copy) (tc_rx_buffer conn);
               buf = (if to_copy < tc_rx_len conn
                      then take (nat (tc_rx_len conn - to_copy))
                             (drop (nat to_copy) (tc_rx_buffer conn))
                           @ drop (nat (tc_rx_len conn - to_copy)) (tc_rx_buffer conn)
                      else tc_rx_buffer conn);
               len' = tc_rx_len conn - to_copy
           in (conn_update w (nat idx)
                 (\<lambda>c. c\<lparr>tc_rx_buffer := buf, tc_rx_len := len',
                         tc_rx_ready := (if len' > 0 then 1 else 0)\<rparr>),
               out, to_copy)))"

definition tcp_close :: "tcp_world \<Rightarrow> int \<Rightarrow> tcp_world" where
  "tcp_close w idx =
     (if idx < 0 \<or> idx \<ge> int MAX_TCP_CONNS then w
      else if tc_state (connections w ! nat idx) = TCP_ESTABLISHED
      then (let w1 = send_tcp_packet w (nat idx) (TCP_FIN OR TCP_ACK) [] in
            conn_update w1 (nat idx)
              (\<lambda>c. c\<lparr>tc_state := TCP_FIN_WAIT_1, tc_timeout_tick := tcp_ticks w + 5000\<rparr>))
      else conn_update w (nat idx) (\<lambda>c. c\<lparr>tc_state := TCP_CLOSED\<rparr>))"

text \<open>Header fields are read byte by byte in network order.\<close>

definition be16 :: "u8 \<Rightarrow> u8 \<Rightarrow> u16" where
  "be16 a b = push_bit 8 (ucast a) OR ucast b"

definition be32 :: "u8 \<Rightarrow> u8 \<Rightarrow> u8 \<Rightarrow> u8 \<Rightarrow> u32" where
  "be32 a b c d =
     push_bit 24 (ucast a) OR push_bit 16 (ucast b) OR push_bit 8 (ucast c) OR ucast d"

text \<open>
  \<open>tcp_handle_packet\<close> gets the source address of the IP header, the bytes of the TCP
  segment and its length (\<open>handle_ip\<close> passes at least 20 bytes).
\<close>

definition tcp_handle_packet :: "tcp_world \<Rightarrow> u8 list \<Rightarrow> u8 list \<Rightarrow> int \<Rightarrow> tcp_world" where
  "tcp_handle_packet w src_ip tcp len =
     (let src_port = be16 (tcp ! 0) (tcp ! 1);
          dest_port = be16 (tcp ! 2) (tcp ! 3);
          seq = be32 (tcp ! 4) (tcp ! 5) (tcp ! 6) (tcp ! 7);
          ack = be32 (tcp ! 8) (tcp ! 9) (tcp ! 10) (tcp ! 11);
          flags = tcp ! 13;
          idx = find_conn w src_ip dest_port src_port
      in if idx < 0 then w
         else
           (let i = nat idx;
                conn = connections w ! i;
                tcp_hdr_len = int (unat (drop_bit 4 (tcp ! 12))) * 4;
                data_len = len - tcp_hdr_len;
                data = drop (nat tcp_hdr_len) tcp
            in if flags AND TCP_RST \<noteq> 0
               then conn_update w i (\<lambda>c. c\<lparr>tc_state := TCP_CLOSED\<rparr>)
               else case tc_state conn of
                 TCP_SYN_SENT \<Rightarrow>
                   (if flags AND (TCP_SYN OR TCP_ACK) = (TCP_SYN OR TCP_ACK)
                    then (let w1 = conn_update w i (\<lambda>c. c\<lparr>tc_ack_num := seq + 1\<rparr>) in
                          if ack = tc_seq_num conn
                          then (let w2 = conn_update w1 i (\<lambda>c. c\<lparr>tc_state := TCP_ESTABLISHED\<rparr>);
                                    w3 = send_tcp_packet w2 i TCP_ACK []
                                in conn_update w3 i (\<lambda>c. c\<lparr>tc_last_ack_sent := tc_ack_num c\<rparr>))
                          else w1)
                    else w)
               | TCP_ESTABLISHED \<Rightarrow>
                   (let wa =
                          (if data_len > 0
                           then (let space = int TCP_RX_BUF_SIZE - tc_rx_len conn;
                                     to_copy = (if data_len > space then space else data_len);
                                     w1 = (if to_copy > 0
                                           then conn_update w i
                                             (\<lambda>c. c\<lparr>tc_rx_buffer :=
                                                      take (nat (tc_rx_len c)) (tc_rx_buffer c)
                                                      @ take (nat to_copy) data
                                                      @ drop (nat (tc_rx_len c + to_copy))
                                                          (tc_rx_buffer c),
                                                    tc_rx_len := tc_rx_len c + to_copy,
                                                    tc_rx_ready := 1\<rparr>)
                                           else w);
                                     w2 = conn_update w1 i
                                            (\<lambda>c. c\<lparr>tc_ack_num := seq + word_of_int data_len\<rparr>);
                                     w3 = send_tcp_packet w2 i TCP_ACK []
                                 in conn_update w3 i (\<lambda>c. c\<lparr>tc_last_ack_sent := tc_ack_num c\<rparr>))
                           else w)
                    in if flags AND TCP_FIN \<noteq> 0
                       then (let w1 = conn_update wa i (\<lambda>c. c\<lparr>tc_ack_num := seq + 1\<rparr>);
                                 w2 = send_tcp_packet w1 i TCP_ACK [];
                                 w3 = conn_update w2 i (\<lambda>c. c\<lparr>tc_state := TCP_CLOSE_WAIT\<rparr>);
                                 w4 = send_tcp_packet w3 i (TCP_FIN OR TCP_ACK) []
                             in conn_update w4 i (\<lambda>c. c\<lparr>tc_state := TCP_LAST_ACK\<rparr>))
                       else wa)
               | TCP_FIN_WAIT_1 \<Rightarrow>
                   (let wa = (if flags AND TCP_ACK \<noteq> 0
                              then conn_update w i (\<lambda>c. c\<lparr>tc_state := TCP_FIN_WAIT_2\<rparr>)
                              else w)
                    in if flags AND TCP_FIN \<noteq> 0
                       then (let w1 = conn_update wa i (\<lambda>c. c\<lparr>tc_ack_num := seq + 1\<rparr>);
                                 w2 = send_tcp_packet w1 i TCP_ACK []
                             in conn_update w2 i
                                  (\<lambda>c. c\<lparr>tc_state := TCP_TIME_WAIT,
                                          tc_timeout_tick := tcp_ticks w + 2000\<rparr>))
                       else wa)
               | TCP_FIN_WAIT_2 \<Rightarrow>
                   (if flags AND TCP_FIN \<noteq> 0
                    then (let w1 = conn_update w i (\<lambda>c. c\<lparr>tc_ack_num := seq + 1\<rparr>);
                              w2 = send_tcp_packet w1 i TCP_ACK []
                          in conn_update w2 i
                               (\<lambda>c. c\<lparr>tc_state := TCP_TIME_WAIT,
                                       tc_timeout_tick := tcp_ticks w + 2000\<rparr>))
                    else w)
               | TCP_LAST_ACK \<Rightarrow>
                   (if flags AND TCP_ACK \<noteq> 0
                    then conn_update w i (\<lambda>c. c\<lparr>tc_state := TCP_CLOSED\<rparr>)
                    else w)
               | _ \<Rightarrow> w))"

subsection \<open>Reading the receive buffer\<close>

lemma conn_update_nth:
  "i < length (connections w) \<Longrightarrow> connections (conn_update w i f) ! i = f (connections w ! i)"
  by (simp add: conn_update_def)

lemma conn_update_length:
  "length (connections (conn_update w i f)) = length (connections w)"
  by (simp add: conn_update_def)

lemma tcp_recv_empty:
  assumes "0 \<le> idx" "idx < 4" "tc_rx_len (connections w ! nat idx) = 0"
  shows "tcp_recv w idx max_len = (w, [], 0)"
  using assms by (simp add: tcp_recv_def MAX_TCP_CONNS_def)

definition recv_shift :: "u8 list \<Rightarrow> int \<Rightarrow> int \<Rightarrow> u8 list" where
  "recv_shift buf len n =
     (if n < len then take (nat (len - n)) (drop (nat n) buf) @ drop (nat (len - n)) buf
      else buf)"

lemma tcp_recv_nonempty:
  assumes "0 \<le> idx" "idx < 4" "tc_rx_len (connections w ! nat idx) \<noteq> 0"
  shows "tcp_recv w idx max_len =
    (conn_update w (nat idx)
       (\<lambda>c. c\<lparr>tc_rx_buffer := recv_shift (tc_rx_buffer (connections w ! nat idx))
                   (tc_rx_len (connections w ! nat idx))
                   (min (tc_rx_len (connections w ! nat idx)) max_len),
              tc_rx_len := tc_rx_len (connections w ! nat idx)
                   - min (tc_rx_len (connections w ! nat idx)) max_len,
              tc_rx_ready := (if tc_rx_len (connections w ! nat idx)
                   - min (tc_rx_len (connections w ! nat idx)) max_len > 0 then 1 else 0)\<rparr>),
     take (nat (min (tc_rx_len (connections w ! nat idx)) max_len))
       (tc_rx_buffer (connections w ! nat idx)),
     min (tc_rx_len (connections w ! nat idx)) max_len)"
proof -
  have m: "(if tc_rx_len (connections w ! nat idx) > max_len then max_len
            else tc_rx_len (connections w ! nat idx))
           = min (tc_rx_len (connections w ! nat idx)) max_len"
    by (simp add: min_def)
  show ?thesis
    using assms unfolding tcp_recv_def Let_def m recv_shift_def
    by (simp add: MAX_TCP_CONNS_def)
qed


lemma recv_shift_front:
  assumes "0 \<le> n" "n \<le> len" "len \<le> int (length buf)"
  shows "take (nat (len - n)) (recv_shift buf len n) = drop (nat n) (take (nat len) buf)"
proof (cases "n < len")
  case True
  have "length (take (nat (len - n)) (drop (nat n) buf)) = nat (len - n)"
    using assms by simp
  then have "take (nat (len - n)) (recv_shift buf len n) = take (nat (len - n)) (drop (nat n) buf)"
    using True by (simp add: recv_shift_def)
  also have "\<dots> = drop (nat n) (take (nat len) buf)"
    using assms by (simp add: drop_take nat_diff_distrib)
  finally show ?thesis .
next
  case False
  then have "n = len" using assms by simp
  then show ?thesis by simp
qed

lemma find_conn_range:
  "find_conn w ip lp rp = idx \<Longrightarrow> 0 \<le> idx \<Longrightarrow> nat idx < length (connections w) \<and> idx < 4"
  by (auto simp: find_conn_def first_index_def MAX_TCP_CONNS_def split: list.splits
      dest!: arg_cong[where f=set] )


definition recv_ok :: "tcp_world \<Rightarrow> int \<Rightarrow> bool" where
  "recv_ok w idx \<longleftrightarrow> 0 \<le> idx \<and> idx < int MAX_TCP_CONNS
     \<and> length (connections w) = MAX_TCP_CONNS
     \<and> length (tc_rx_buffer (connections w ! nat idx)) = TCP_RX_BUF_SIZE
     \<and> 0 \<le> tc_rx_len (connections w ! nat idx)
     \<and> tc_rx_len (connections w ! nat idx) \<le> int TCP_RX_BUF_SIZE"

lemma tcp_recv_snd:
  assumes "0 \<le> idx" "idx < 4" "0 \<le> max_len" "0 \<le> tc_rx_len (connections w ! nat idx)"
  shows "snd (tcp_recv w idx max_len)
       = (take (nat (min (tc_rx_len (connections w ! nat idx)) max_len))
            (tc_rx_buffer (connections w ! nat idx)),
          min (tc_rx_len (connections w ! nat idx)) max_len)"
proof (cases "tc_rx_len (connections w ! nat idx) = 0")
  case True
  then show ?thesis using assms tcp_recv_empty[OF assms(1,2) True, of max_len] by simp
next
  case False
  show ?thesis by (simp add: tcp_recv_nonempty[OF assms(1,2) False])
qed

lemma tcp_recv_snd_state:
  assumes "0 \<le> idx" "idx < 4" "0 \<le> max_len" "0 \<le> tc_rx_len (connections w ! nat idx)"
    "nat idx < length (connections w)"
  shows "snd (tcp_recv (conn_update w (nat idx) (\<lambda>c. c\<lparr>tc_state := s\<rparr>)) idx max_len)
       = snd (tcp_recv w idx max_len)"
proof -
  let ?w = "conn_update w (nat idx) (\<lambda>c. c\<lparr>tc_state := s\<rparr>)"
  have c: "connections ?w ! nat idx = (connections w ! nat idx)\<lparr>tc_state := s\<rparr>"
    using assms(5) by (rule conn_update_nth)
  have "0 \<le> tc_rx_len (connections ?w ! nat idx)" using assms(4) c by simp
  from tcp_recv_snd[OF assms(1,2,3) this] tcp_recv_snd[OF assms(1,2,3,4)] c
  show ?thesis by simp
qed

lemma tcp_handle_packet_rst:
  assumes "find_conn w src (be16 (tcp ! 2) (tcp ! 3)) (be16 (tcp ! 0) (tcp ! 1)) = idx"
    "0 \<le> idx" "tcp ! 13 AND TCP_RST \<noteq> 0"
  shows "tcp_handle_packet w src tcp len
       = conn_update w (nat idx) (\<lambda>c. c\<lparr>tc_state := TCP_CLOSED\<rparr>)"
  using assms by (simp add: tcp_handle_packet_def Let_def)

lemma tcp_close_not_established:
  assumes "0 \<le> idx" "idx < 4" "tc_state (connections w ! nat idx) \<noteq> TCP_ESTABLISHED"
  shows "tcp_close w idx = conn_update w (nat idx) (\<lambda>c. c\<lparr>tc_state := TCP_CLOSED\<rparr>)"
  using assms by (simp add: tcp_close_def MAX_TCP_CONNS_def)

text \<open>
  Claim C9. For a valid connection index and a caller buffer of \<open>max_len \<ge> 0\<close> bytes,
  \<open>tcp_recv\<close> returns \<open>n = min rx_len max_len\<close> and the first \<open>n\<close> buffered bytes, leaves
  the remaining \<open>rx_len - n\<close> bytes at the front of the buffer and does not touch the
  connection state. The result depends on \<open>rx_len\<close> and the buffer only, not on the
  state: it is the same after the state is overwritten by any value, in particular
  after a RST segment or \<open>tcp_close\<close> has set it to \<open>CLOSED\<close>. With an empty buffer it
  returns 0 and changes nothing.
\<close>

theorem tcp_recv_buffered:
  assumes ok: "recv_ok w idx" and m: "0 \<le> max_len"
    and c: "c = connections w ! nat idx"
    and n: "n = min (tc_rx_len c) max_len"
    and c': "c' = connections (fst (tcp_recv w idx max_len)) ! nat idx"
  shows "snd (tcp_recv w idx max_len) = (take (nat n) (tc_rx_buffer c), n)
       \<and> tc_rx_len c' = tc_rx_len c - n
       \<and> take (nat (tc_rx_len c - n)) (tc_rx_buffer c')
            = drop (nat n) (take (nat (tc_rx_len c)) (tc_rx_buffer c))
       \<and> tc_state c' = tc_state c
       \<and> snd (tcp_recv (conn_update w (nat idx) (\<lambda>c. c\<lparr>tc_state := s\<rparr>)) idx max_len)
            = snd (tcp_recv w idx max_len)
       \<and> (tc_rx_len c = 0 \<longrightarrow> tcp_recv w idx max_len = (w, [], 0))
       \<and> (find_conn w src (be16 (tcp ! 2) (tcp ! 3)) (be16 (tcp ! 0) (tcp ! 1)) = idx
            \<and> tcp ! 13 AND TCP_RST \<noteq> 0 \<longrightarrow>
              tc_state (connections (tcp_handle_packet w src tcp len) ! nat idx) = TCP_CLOSED
            \<and> snd (tcp_recv (tcp_handle_packet w src tcp len) idx max_len)
                = snd (tcp_recv w idx max_len))
       \<and> (tc_state c \<noteq> TCP_ESTABLISHED \<longrightarrow>
              tc_state (connections (tcp_close w idx) ! nat idx) = TCP_CLOSED
            \<and> snd (tcp_recv (tcp_close w idx) idx max_len) = snd (tcp_recv w idx max_len))"
proof -
  have i0: "0 \<le> idx" and i4: "idx < 4" and len: "nat idx < length (connections w)"
    and l0: "0 \<le> tc_rx_len (connections w ! nat idx)"
    and lb: "tc_rx_len (connections w ! nat idx)
              \<le> int (length (tc_rx_buffer (connections w ! nat idx)))"
    using ok by (auto simp: recv_ok_def MAX_TCP_CONNS_def TCP_RX_BUF_SIZE_def)
  have r1: "snd (tcp_recv w idx max_len) = (take (nat n) (tc_rx_buffer c), n)"
    unfolding n c by (rule tcp_recv_snd[OF i0 i4 m l0])
  have st: "snd (tcp_recv (conn_update w (nat idx) (\<lambda>c. c\<lparr>tc_state := s\<rparr>)) idx max_len)
            = snd (tcp_recv w idx max_len)" for s
    by (rule tcp_recv_snd_state[OF i0 i4 m l0 len])
  have e: "tc_rx_len c = 0 \<longrightarrow> tcp_recv w idx max_len = (w, [], 0)"
    unfolding c using tcp_recv_empty[OF i0 i4] by blast
  have n0: "0 \<le> n" and nl: "n \<le> tc_rx_len c" using m l0 unfolding n c by simp_all
  have frame: "tc_rx_len c' = tc_rx_len c - n
       \<and> take (nat (tc_rx_len c - n)) (tc_rx_buffer c')
            = drop (nat n) (take (nat (tc_rx_len c)) (tc_rx_buffer c))
       \<and> tc_state c' = tc_state c"
  proof (cases "tc_rx_len c = 0")
    case True
    then have "tcp_recv w idx max_len = (w, [], 0)" using e by simp
    then have "c' = c" unfolding c' c by simp
    moreover have "n = 0" using True n0 nl by simp
    ultimately show ?thesis using True by simp
  next
    case False
    then have ne: "tc_rx_len (connections w ! nat idx) \<noteq> 0" unfolding c .
    have "c' = c\<lparr>tc_rx_buffer := recv_shift (tc_rx_buffer c) (tc_rx_len c) n,
                 tc_rx_len := tc_rx_len c - n,
                 tc_rx_ready := (if tc_rx_len c - n > 0 then 1 else 0)\<rparr>"
      unfolding c' n c by (simp add: tcp_recv_nonempty[OF i0 i4 ne] conn_update_nth[OF len])
    then show ?thesis
      using recv_shift_front[OF n0 nl, of "tc_rx_buffer c"] lb unfolding c by simp
  qed
  have rst: "tc_state (connections (tcp_handle_packet w src tcp len) ! nat idx) = TCP_CLOSED
            \<and> snd (tcp_recv (tcp_handle_packet w src tcp len) idx max_len)
                = snd (tcp_recv w idx max_len)"
    if "find_conn w src (be16 (tcp ! 2) (tcp ! 3)) (be16 (tcp ! 0) (tcp ! 1)) = idx"
      and "tcp ! 13 AND TCP_RST \<noteq> 0"
    using tcp_handle_packet_rst[OF that(1) i0 that(2)] st[of TCP_CLOSED]
    by (simp add: conn_update_nth[OF len])
  have cl: "tc_state (connections (tcp_close w idx) ! nat idx) = TCP_CLOSED
            \<and> snd (tcp_recv (tcp_close w idx) idx max_len) = snd (tcp_recv w idx max_len)"
    if "tc_state c \<noteq> TCP_ESTABLISHED"
    using tcp_close_not_established[OF i0 i4 that[unfolded c]] st[of TCP_CLOSED]
    by (simp add: conn_update_nth[OF len])
  show ?thesis using r1 frame st e rst cl by blast
qed


definition conn_hello :: tcp_conn where
  "conn_hello = zero_conn\<lparr>tc_state := TCP_ESTABLISHED, tc_remote_ip := [10, 0, 2, 2],
     tc_local_port := 49152, tc_remote_port := 80, tc_seq_num := 1001, tc_ack_num := 501,
     tc_rx_buffer := [104, 101, 108, 108, 111] @ replicate 4091 0, tc_rx_len := 5,
     tc_rx_ready := 1\<rparr>"

definition arp_gw :: arp_entry where
  "arp_gw = \<lparr>arp_ip = [10, 0, 2, 2], arp_mac = [82, 84, 0, 18, 52, 86], arp_valid = True\<rparr>"

definition world_hello :: tcp_world where
  "world_hello = \<lparr>connections = [zero_conn, conn_hello, zero_conn, zero_conn],
     next_local_port = 49153, tcp_ticks = 0, isn_seed = 1000, net_available = True,
     cfg_configured = True, cfg_ip = [10, 0, 2, 15], cfg_gateway = [10, 0, 2, 2],
     arp_cache = [arp_gw], tx_log = []\<rparr>"

definition rst_segment :: "u8 list" where
  "rst_segment = [0, 80, 192, 0, 0, 0, 0, 0, 0, 0, 0, 0, 80, 4, 0, 0, 0, 0, 0, 0]"

lemma upt_4: "[0..<4] = [0, 1, 2, 3]"
  by (simp add: upt_conv_Cons)

theorem tcp_recv_buffered_witness:
  "recv_ok world_hello 1
   \<and> snd (tcp_recv world_hello 1 3) = ([104, 101, 108], 3)
   \<and> tc_rx_len (connections (fst (tcp_recv world_hello 1 3)) ! 1) = 2
   \<and> take 2 (tc_rx_buffer (connections (fst (tcp_recv world_hello 1 3)) ! 1)) = [108, 111]
   \<and> find_conn world_hello [10, 0, 2, 2] (be16 (rst_segment ! 2) (rst_segment ! 3))
        (be16 (rst_segment ! 0) (rst_segment ! 1)) = 1
   \<and> rst_segment ! 13 AND TCP_RST \<noteq> 0
   \<and> tc_state (connections (tcp_handle_packet world_hello [10, 0, 2, 2] rst_segment 20) ! 1)
        = TCP_CLOSED
   \<and> snd (tcp_recv (tcp_handle_packet world_hello [10, 0, 2, 2] rst_segment 20) 1 3)
        = ([104, 101, 108], 3)"
proof -
  have ok: "recv_ok world_hello 1"
    by (simp add: recv_ok_def world_hello_def conn_hello_def zero_conn_def
        MAX_TCP_CONNS_def TCP_RX_BUF_SIZE_def)
  have m: "(0::int) \<le> 3" by simp
  have f: "find_conn world_hello [10, 0, 2, 2] (be16 (rst_segment ! 2) (rst_segment ! 3))
        (be16 (rst_segment ! 0) (rst_segment ! 1)) = 1"
    by (simp add: find_conn_def first_index_def world_hello_def conn_hello_def zero_conn_def
        MAX_TCP_CONNS_def rst_segment_def be16_def ip_match_def upt_4)
  have r: "rst_segment ! 13 AND TCP_RST \<noteq> 0"
    by (simp add: rst_segment_def TCP_RST_def)
  have c: "connections world_hello ! nat 1 = conn_hello"
    by (simp add: world_hello_def)
  have n: "min (tc_rx_len conn_hello) 3 = 3" by (simp add: conn_hello_def)
  have b: "take 3 (tc_rx_buffer conn_hello) = [104, 101, 108]"
    "drop 3 (take 5 (tc_rx_buffer conn_hello)) = [108, 111]"
    "tc_rx_len conn_hello = 5"
    by (simp_all add: conn_hello_def)
  note t = tcp_recv_buffered[OF ok m refl refl refl,
        of TCP_CLOSED "[10, 0, 2, 2]" rst_segment 20, unfolded c n]
  have t1: "snd (tcp_recv world_hello 1 3) = ([104, 101, 108], 3)"
    using t by (simp add: b)
  have t2: "tc_rx_len (connections (fst (tcp_recv world_hello 1 3)) ! 1) = 2"
    using t by (simp add: b)
  have t3: "take 2 (tc_rx_buffer (connections (fst (tcp_recv world_hello 1 3)) ! 1))
          = [108, 111]"
    using t by (simp add: b)
  have t4: "tc_state (connections (tcp_handle_packet world_hello [10, 0, 2, 2] rst_segment 20) ! 1)
        = TCP_CLOSED
     \<and> snd (tcp_recv (tcp_handle_packet world_hello [10, 0, 2, 2] rst_segment 20) 1 3)
        = snd (tcp_recv world_hello 1 3)"
    using t f r by simp
  show ?thesis using ok t1 t2 t3 t4 f r by simp
qed


subsection \<open>The handshake\<close>

definition route_mac :: "tcp_world \<Rightarrow> u8 list option" where
  "route_mac w =
     (if net_available w \<and> cfg_configured w
      then net_arp_lookup (arp_cache w) (cfg_gateway w) else None)"

definition ack_frame :: "tcp_world \<Rightarrow> tcp_conn \<Rightarrow> u8 list \<Rightarrow> u32 \<Rightarrow> tcp_frame" where
  "ack_frame w c mac seq =
     \<lparr>tf_dest_mac = mac, tf_src_ip = cfg_ip w, tf_dest_ip = tc_remote_ip c,
      tf_src_port = tc_local_port c, tf_dest_port = tc_remote_port c,
      tf_seq = tc_seq_num c, tf_ack = seq + 1, tf_flags = TCP_ACK, tf_payload = []\<rparr>"

lemma flags_ack_only: "TCP_ACK AND TCP_SYN = 0" "TCP_ACK AND TCP_FIN = 0"
  by (simp_all add: TCP_ACK_def TCP_SYN_def TCP_FIN_def)

lemma conn_update_fields:
  "tx_log (conn_update w i f) = tx_log w"
  "net_available (conn_update w i f) = net_available w"
  "cfg_configured (conn_update w i f) = cfg_configured w"
  "cfg_ip (conn_update w i f) = cfg_ip w"
  "cfg_gateway (conn_update w i f) = cfg_gateway w"
  "arp_cache (conn_update w i f) = arp_cache w"
  by (simp_all add: conn_update_def)

lemma conn_update_twice:
  "conn_update (conn_update w i f) i g = conn_update w i (g \<circ> f)"
proof (cases "i < length (connections w)")
  case True
  then show ?thesis by (simp add: conn_update_def)
next
  case False
  have "(connections w)[i := x] = connections w" for x
    using False by (intro list_update_beyond) simp
  then show ?thesis by (simp add: conn_update_def)
qed

lemma send_ack_sent:
  assumes "route_mac w = Some mac" "i < length (connections w)"
  shows "send_tcp_packet w i TCP_ACK [] =
     w\<lparr>tx_log := tx_log w @ [TX_TCP \<lparr>tf_dest_mac = mac, tf_src_ip = cfg_ip w,
            tf_dest_ip = tc_remote_ip (connections w ! i),
            tf_src_port = tc_local_port (connections w ! i),
            tf_dest_port = tc_remote_port (connections w ! i),
            tf_seq = tc_seq_num (connections w ! i), tf_ack = tc_ack_num (connections w ! i),
            tf_flags = TCP_ACK, tf_payload = []\<rparr>]\<rparr>"
proof -
  have a: "net_available w" "cfg_configured w"
    "net_arp_lookup (arp_cache w) (cfg_gateway w) = Some mac"
    using assms(1) by (auto simp: route_mac_def split: if_splits)
  have "(connections w)[i := connections w ! i] = connections w"
    by (rule list_update_id)
  then show ?thesis using a
    by (simp add: send_tcp_packet_def Let_def flags_ack_only conn_update_def)
qed

lemma send_ack_arp:
  assumes "net_available w" "cfg_configured w"
    "net_arp_lookup (arp_cache w) (cfg_gateway w) = None"
  shows "send_tcp_packet w i fl d = w\<lparr>tx_log := tx_log w @ [TX_ARP_REQUEST (cfg_gateway w)]\<rparr>"
  using assms by (simp add: send_tcp_packet_def)

lemma send_ack_down:
  assumes "\<not> net_available w \<or> \<not> cfg_configured w"
  shows "send_tcp_packet w i fl d = w"
  using assms by (auto simp: send_tcp_packet_def)

lemma handle_syn_ack:
  assumes idx: "find_conn w src (be16 (tcp ! 2) (tcp ! 3)) (be16 (tcp ! 0) (tcp ! 1)) = idx"
    and i0: "0 \<le> idx"
    and st: "tc_state (connections w ! nat idx) = TCP_SYN_SENT"
    and fl: "tcp ! 13 AND (TCP_SYN OR TCP_ACK) = TCP_SYN OR TCP_ACK"
    and nr: "tcp ! 13 AND TCP_RST = 0"
    and ack: "be32 (tcp ! 8) (tcp ! 9) (tcp ! 10) (tcp ! 11) = tc_seq_num (connections w ! nat idx)"
  shows "tcp_handle_packet w src tcp len =
     conn_update
       (send_tcp_packet
          (conn_update w (nat idx)
             (\<lambda>c. c\<lparr>tc_ack_num := be32 (tcp ! 4) (tcp ! 5) (tcp ! 6) (tcp ! 7) + 1,
                     tc_state := TCP_ESTABLISHED\<rparr>))
          (nat idx) TCP_ACK [])
       (nat idx) (\<lambda>c. c\<lparr>tc_last_ack_sent := tc_ack_num c\<rparr>)"
  using assms
  by (simp add: tcp_handle_packet_def Let_def conn_update_twice comp_def)


lemma first_index_range:
  assumes "first_index P xs = i" "0 \<le> i"
  shows "nat i < length xs \<and> i < 4 \<and> P (xs ! nat i)"
proof -
  let ?l = "filter (\<lambda>k. P (xs ! k)) [0..<min MAX_TCP_CONNS (length xs)]"
  obtain k ks where l: "?l = k # ks" and i: "i = int k"
    using assms by (auto simp: first_index_def split: list.splits)
  have "k \<in> set ?l" using l by simp
  then show ?thesis using i by (auto simp: MAX_TCP_CONNS_def)
qed

lemma syn_flags: "TCP_SYN \<noteq> 0" "TCP_SYN AND TCP_FIN = 0"
  by (simp_all add: TCP_SYN_def TCP_FIN_def)

lemma tcp_connect_syn:
  assumes r: "route_mac w0 = Some mac" and f: "find_free_conn w0 = j" and j: "0 \<le> j"
  shows "snd (tcp_connect w0 ip port) = j
       \<and> tc_state (connections (fst (tcp_connect w0 ip port)) ! nat j) = TCP_SYN_SENT
       \<and> tc_seq_num (connections (fst (tcp_connect w0 ip port)) ! nat j)
            = get_initial_seq (isn_seed w0) + 1
       \<and> tx_log (fst (tcp_connect w0 ip port)) = tx_log w0 @
            [TX_TCP \<lparr>tf_dest_mac = mac, tf_src_ip = cfg_ip w0, tf_dest_ip = take 4 ip,
               tf_src_port = next_local_port w0, tf_dest_port = port,
               tf_seq = get_initial_seq (isn_seed w0), tf_ack = 0,
               tf_flags = TCP_SYN, tf_payload = []\<rparr>]"
proof -
  have a: "net_available w0" "cfg_configured w0"
    "net_arp_lookup (arp_cache w0) (cfg_gateway w0) = Some mac"
    using r by (auto simp: route_mac_def split: if_splits)
  have l: "nat j < length (connections w0)"
    using first_index_range[OF f[unfolded find_free_conn_def] j] by simp
  show ?thesis using a f j l
    by (simp add: tcp_connect_def Let_def send_tcp_packet_def syn_flags conn_update_def)
qed

lemma handshake_outcome:
  assumes idx: "find_conn w src (be16 (tcp ! 2) (tcp ! 3)) (be16 (tcp ! 0) (tcp ! 1)) = idx"
    and i0: "0 \<le> idx"
    and st: "tc_state (connections w ! nat idx) = TCP_SYN_SENT"
    and fl: "tcp ! 13 AND (TCP_SYN OR TCP_ACK) = TCP_SYN OR TCP_ACK"
    and nr: "tcp ! 13 AND TCP_RST = 0"
    and ack: "be32 (tcp ! 8) (tcp ! 9) (tcp ! 10) (tcp ! 11) = tc_seq_num (connections w ! nat idx)"
    and c: "c = connections w ! nat idx"
    and seq: "seq = be32 (tcp ! 4) (tcp ! 5) (tcp ! 6) (tcp ! 7)"
    and w': "w' = tcp_handle_packet w src tcp len"
    and c': "c' = connections w' ! nat idx"
  shows "c' = c\<lparr>tc_ack_num := seq + 1, tc_state := TCP_ESTABLISHED,
                  tc_last_ack_sent := seq + 1\<rparr>
       \<and> tx_log w' = tx_log w @
            (if net_available w \<and> cfg_configured w
             then (case net_arp_lookup (arp_cache w) (cfg_gateway w) of
                     Some m \<Rightarrow> [TX_TCP (ack_frame w c m seq)]
                   | None \<Rightarrow> [TX_ARP_REQUEST (cfg_gateway w)])
             else [])"
proof -
  let ?i = "nat idx"
  let ?w1 = "conn_update w ?i (\<lambda>c. c\<lparr>tc_ack_num := seq + 1, tc_state := TCP_ESTABLISHED\<rparr>)"
  have len: "?i < length (connections w)"
    using first_index_range[OF idx[unfolded find_conn_def] i0] by simp
  have h: "w' = conn_update (send_tcp_packet ?w1 ?i TCP_ACK []) ?i
                  (\<lambda>c. c\<lparr>tc_last_ack_sent := tc_ack_num c\<rparr>)"
    unfolding w' seq by (rule handle_syn_ack[OF idx i0 st fl nr ack])
  have c1: "connections ?w1 ! ?i = c\<lparr>tc_ack_num := seq + 1, tc_state := TCP_ESTABLISHED\<rparr>"
    unfolding c by (rule conn_update_nth[OF len])
  have len1: "?i < length (connections ?w1)" using len by (simp add: conn_update_length)
  have rm: "route_mac ?w1 = route_mac w" by (simp add: route_mac_def conn_update_fields)
  consider (sent) m where "route_mac w = Some m"
    | (arp) "net_available w" "cfg_configured w"
        "net_arp_lookup (arp_cache w) (cfg_gateway w) = None"
    | (down) "\<not> (net_available w \<and> cfg_configured w)"
    by (cases "route_mac w") (auto simp: route_mac_def split: if_splits)
  then show ?thesis
  proof cases
    case sent
    have s: "send_tcp_packet ?w1 ?i TCP_ACK [] =
               ?w1\<lparr>tx_log := tx_log w @ [TX_TCP (ack_frame w c m seq)]\<rparr>"
      using send_ack_sent[OF sent[folded rm] len1]
      by (simp add: c1 ack_frame_def conn_update_fields)
    have "c' = c\<lparr>tc_ack_num := seq + 1, tc_state := TCP_ESTABLISHED,
                  tc_last_ack_sent := seq + 1\<rparr>"
      unfolding c' h s using len c1 by (simp add: conn_update_def)
    moreover have "tx_log w' = tx_log w @ [TX_TCP (ack_frame w c m seq)]"
      unfolding h s by (simp add: conn_update_def)
    moreover have "net_available w \<and> cfg_configured w
        \<and> net_arp_lookup (arp_cache w) (cfg_gateway w) = Some m"
      using sent by (auto simp: route_mac_def split: if_splits)
    ultimately show ?thesis by simp
  next
    case arp
    have s: "send_tcp_packet ?w1 ?i TCP_ACK [] =
               ?w1\<lparr>tx_log := tx_log w @ [TX_ARP_REQUEST (cfg_gateway w)]\<rparr>"
      using arp send_ack_arp[of ?w1 ?i TCP_ACK "[]"] by (simp add: conn_update_fields)
    have "c' = c\<lparr>tc_ack_num := seq + 1, tc_state := TCP_ESTABLISHED,
                  tc_last_ack_sent := seq + 1\<rparr>"
      unfolding c' h s using len c1 by (simp add: conn_update_def)
    moreover have "tx_log w' = tx_log w @ [TX_ARP_REQUEST (cfg_gateway w)]"
      unfolding h s by (simp add: conn_update_def)
    ultimately show ?thesis using arp by simp
  next
    case down
    have s: "send_tcp_packet ?w1 ?i TCP_ACK [] = ?w1"
      using down send_ack_down[of ?w1 ?i TCP_ACK "[]"] by (simp add: conn_update_fields)
    have "c' = c\<lparr>tc_ack_num := seq + 1, tc_state := TCP_ESTABLISHED,
                  tc_last_ack_sent := seq + 1\<rparr>"
      unfolding c' h s using len c1 by (simp add: conn_update_def)
    moreover have "tx_log w' = tx_log w"
      unfolding h s by (simp add: conn_update_def)
    ultimately show ?thesis using down by auto
  qed
qed

text \<open>
  Claim C2, as the code has it. A connection made by \<open>tcp_connect\<close> whose SYN went out is
  in \<open>SYN_SENT\<close> with \<open>seq_num = iss + 1\<close>. When a segment for it arrives with SYN and
  ACK set, RST clear and acknowledgment number \<open>iss + 1\<close>, the connection records
  \<open>ack_num = seq + 1\<close> and becomes \<open>ESTABLISHED\<close>; the ACK segment (sequence number
  \<open>iss + 1\<close>, acknowledgment \<open>seq + 1\<close>) is handed to the driver when, at that moment,
  the driver is available, the network configured and the gateway's MAC in the ARP
  cache; with the MAC missing an ARP request is sent in its place, and with the network
  down nothing is sent.
\<close>

theorem tcp_handshake_established:
  assumes idx: "find_conn w src (be16 (tcp ! 2) (tcp ! 3)) (be16 (tcp ! 0) (tcp ! 1)) = idx"
    and i0: "0 \<le> idx"
    and st: "tc_state (connections w ! nat idx) = TCP_SYN_SENT"
    and fl: "tcp ! 13 AND (TCP_SYN OR TCP_ACK) = TCP_SYN OR TCP_ACK"
    and nr: "tcp ! 13 AND TCP_RST = 0"
    and ack: "be32 (tcp ! 8) (tcp ! 9) (tcp ! 10) (tcp ! 11) = tc_seq_num (connections w ! nat idx)"
    and c: "c = connections w ! nat idx"
    and seq: "seq = be32 (tcp ! 4) (tcp ! 5) (tcp ! 6) (tcp ! 7)"
    and w': "w' = tcp_handle_packet w src tcp len"
    and c': "c' = connections w' ! nat idx"
  shows "tc_state c' = TCP_ESTABLISHED \<and> tc_ack_num c' = seq + 1
       \<and> tc_seq_num c' = tc_seq_num c
       \<and> (route_mac w = Some mac \<longrightarrow>
             tx_log w' = tx_log w @ [TX_TCP (ack_frame w c mac seq)]
           \<and> tc_last_ack_sent c' = seq + 1)
       \<and> (net_available w \<and> cfg_configured w
            \<and> net_arp_lookup (arp_cache w) (cfg_gateway w) = None \<longrightarrow>
             tx_log w' = tx_log w @ [TX_ARP_REQUEST (cfg_gateway w)])
       \<and> (\<not> (net_available w \<and> cfg_configured w) \<longrightarrow> tx_log w' = tx_log w)
       \<and> (route_mac wa = Some maca \<and> find_free_conn wa = j \<and> 0 \<le> j \<longrightarrow>
             snd (tcp_connect wa ip port) = j
           \<and> tc_state (connections (fst (tcp_connect wa ip port)) ! nat j) = TCP_SYN_SENT
           \<and> tc_seq_num (connections (fst (tcp_connect wa ip port)) ! nat j)
                = get_initial_seq (isn_seed wa) + 1)"
proof -
  note o = handshake_outcome[OF idx i0 st fl nr ack c seq w' c']
  have r: "route_mac w = Some mac \<longleftrightarrow> net_available w \<and> cfg_configured w
             \<and> net_arp_lookup (arp_cache w) (cfg_gateway w) = Some mac"
    by (auto simp: route_mac_def)
  have main: "tc_state c' = TCP_ESTABLISHED \<and> tc_ack_num c' = seq + 1
       \<and> tc_seq_num c' = tc_seq_num c
       \<and> (route_mac w = Some mac \<longrightarrow>
             tx_log w' = tx_log w @ [TX_TCP (ack_frame w c mac seq)]
           \<and> tc_last_ack_sent c' = seq + 1)
       \<and> (net_available w \<and> cfg_configured w
            \<and> net_arp_lookup (arp_cache w) (cfg_gateway w) = None \<longrightarrow>
             tx_log w' = tx_log w @ [TX_ARP_REQUEST (cfg_gateway w)])
       \<and> (\<not> (net_available w \<and> cfg_configured w) \<longrightarrow> tx_log w' = tx_log w)"
    using o unfolding r by auto
  show ?thesis using main tcp_connect_syn[of wa maca j ip port] by blast
qed

subsection \<open>A run in which the gateway leaves the ARP cache before the SYN-ACK arrives\<close>

text \<open>\<open>arp_add\<close> of \<open>net.c\<close>: refresh the entry of a known address, else fill the first
  free slot, else overwrite slot 0.\<close>

fun arp_refresh :: "arp_entry list \<Rightarrow> u8 list \<Rightarrow> u8 list \<Rightarrow> arp_entry list option" where
  "arp_refresh [] ip mac = None"
| "arp_refresh (e # es) ip mac =
     (if arp_valid e \<and> ip_match (arp_ip e) ip then Some (e\<lparr>arp_mac := mac\<rparr> # es)
      else map_option (\<lambda>r. e # r) (arp_refresh es ip mac))"

fun arp_fill :: "arp_entry list \<Rightarrow> u8 list \<Rightarrow> u8 list \<Rightarrow> arp_entry list option" where
  "arp_fill [] ip mac = None"
| "arp_fill (e # es) ip mac =
     (if \<not> arp_valid e then Some (\<lparr>arp_ip = ip, arp_mac = mac, arp_valid = True\<rparr> # es)
      else map_option (\<lambda>r. e # r) (arp_fill es ip mac))"

definition arp_add :: "arp_entry list \<Rightarrow> u8 list \<Rightarrow> u8 list \<Rightarrow> arp_entry list" where
  "arp_add cache ip mac =
     (case arp_refresh cache ip mac of
        Some c \<Rightarrow> c
      | None \<Rightarrow>
          (case arp_fill cache ip mac of
             Some c \<Rightarrow> c
           | None \<Rightarrow> cache[0 := (cache ! 0)\<lparr>arp_ip := ip, arp_mac := mac\<rparr>]))"

definition arp_empty :: "arp_entry list" where
  "arp_empty = replicate 8 \<lparr>arp_ip = [0, 0, 0, 0], arp_mac = [0, 0, 0, 0, 0, 0], arp_valid = False\<rparr>"

definition gw_ip :: "u8 list" where
  "gw_ip = [10, 0, 2, 2]"

definition gw_mac :: "u8 list" where
  "gw_mac = [82, 84, 0, 18, 52, 86]"

definition conn_syn :: tcp_conn where
  "conn_syn = zero_conn\<lparr>tc_remote_ip := gw_ip, tc_remote_port := 80,
     tc_local_port := 49152, tc_seq_num := get_initial_seq 0x12345678 + 1, tc_ack_num := 0,
     tc_state := TCP_SYN_SENT, tc_timeout_tick := 500, tc_retries := 0,
     tc_rx_len := 0, tc_rx_ready := 0\<rparr>"

text \<open>The state before \<open>tcp_connect\<close>: configured, the gateway's MAC known, no connection.\<close>

definition world_boot :: tcp_world where
  "world_boot = \<lparr>connections = [zero_conn, zero_conn, zero_conn, zero_conn],
     next_local_port = 49152, tcp_ticks = 0, isn_seed = 0x12345678, net_available = True,
     cfg_configured = True, cfg_ip = [10, 0, 2, 15], cfg_gateway = gw_ip,
     arp_cache = arp_add arp_empty gw_ip gw_mac, tx_log = []\<rparr>"

definition syn_frame :: tx_frame where
  "syn_frame = TX_TCP \<lparr>tf_dest_mac = gw_mac, tf_src_ip = [10, 0, 2, 15], tf_dest_ip = gw_ip,
     tf_src_port = 49152, tf_dest_port = 80, tf_seq = get_initial_seq 0x12345678, tf_ack = 0,
     tf_flags = TCP_SYN, tf_payload = []\<rparr>"

text \<open>The state after \<open>tcp_connect\<close> to 10.0.2.2:80 (lemma \<open>world_syn_connect\<close>).\<close>

definition world_syn :: tcp_world where
  "world_syn = world_boot\<lparr>connections := [conn_syn, zero_conn, zero_conn, zero_conn],
     next_local_port := 49153, isn_seed := get_initial_seq 0x12345678,
     tx_log := [syn_frame]\<rparr>"

text \<open>Eight other hosts are learnt by \<open>arp_add\<close>: seven fill the free slots, the eighth
  overwrites slot 0, which held the gateway.\<close>

definition other_hosts :: "u8 list" where
  "other_hosts = [20, 21, 22, 23, 24, 25, 26, 27]"

definition world_evicted :: tcp_world where
  "world_evicted = world_syn\<lparr>arp_cache :=
     foldl (\<lambda>c k. arp_add c [10, 0, 2, k] [82, 84, 0, 0, 0, k]) (arp_cache world_syn)
       other_hosts\<rparr>"

text \<open>SYN-ACK from 10.0.2.2:80 to port 49152, sequence number 5000, acknowledging
  \<open>iss + 1 = 0x0B719152\<close>.\<close>

definition syn_ack_segment :: "u8 list" where
  "syn_ack_segment =
     [0, 80, 192, 0, 0, 0, 19, 136, 11, 113, 145, 82, 80, 18, 16, 0, 0, 0, 0, 0]"

lemma zero_conn_state: "tc_state zero_conn = TCP_CLOSED"
  by (simp add: zero_conn_def)

lemma replicate_8: "replicate 8 x = [x, x, x, x, x, x, x, x]"
  by (simp add: numeral_eq_Suc)

lemma replicate_7: "replicate 7 x = [x, x, x, x, x, x, x]"
  by (simp add: numeral_eq_Suc)

lemma boot_cache: "arp_add arp_empty gw_ip gw_mac =
  \<lparr>arp_ip = gw_ip, arp_mac = gw_mac, arp_valid = True\<rparr>
    # replicate 7 \<lparr>arp_ip = [0, 0, 0, 0], arp_mac = [0, 0, 0, 0, 0, 0], arp_valid = False\<rparr>"
  by (simp add: arp_add_def arp_empty_def replicate_8 replicate_7)

lemma boot_free: "find_free_conn world_boot = 0"
  by (simp add: find_free_conn_def first_index_def world_boot_def MAX_TCP_CONNS_def upt_4
      zero_conn_state)

lemma boot_route: "route_mac world_boot = Some gw_mac"
  by (simp add: route_mac_def world_boot_def boot_cache ip_match_def)

lemma world_syn_connect: "tcp_connect world_boot gw_ip 80 = (world_syn, 0)"
proof -
  have a: "net_available world_boot" "cfg_configured world_boot"
    "net_arp_lookup (arp_cache world_boot) (cfg_gateway world_boot) = Some gw_mac"
    using boot_route by (auto simp: route_mac_def split: if_splits)
  have t: "take 4 gw_ip = gw_ip" by (simp add: gw_ip_def)
  show ?thesis
    unfolding tcp_connect_def boot_free Let_def send_tcp_packet_def
    using a
    by (simp add: conn_update_def syn_flags t)
       (simp add: world_boot_def world_syn_def conn_syn_def syn_frame_def)
qed

lemma evicted_cache: "arp_cache world_evicted =
  map (\<lambda>k. \<lparr>arp_ip = [10, 0, 2, k], arp_mac = [82, 84, 0, 0, 0, k], arp_valid = True\<rparr>)
    [27, 20, 21, 22, 23, 24, 25, 26]"
  by code_simp

lemma evicted_route: "net_arp_lookup (arp_cache world_evicted) gw_ip = None"
  by (simp add: evicted_cache ip_match_def gw_ip_def)


lemma syn_ack_fields:
  "be16 (syn_ack_segment ! 2) (syn_ack_segment ! 3) = 49152"
  "be16 (syn_ack_segment ! 0) (syn_ack_segment ! 1) = 80"
  "be32 (syn_ack_segment ! 4) (syn_ack_segment ! 5) (syn_ack_segment ! 6) (syn_ack_segment ! 7)
     = 5000"
  "be32 (syn_ack_segment ! 8) (syn_ack_segment ! 9) (syn_ack_segment ! 10) (syn_ack_segment ! 11)
     = get_initial_seq 0x12345678 + 1"
  "syn_ack_segment ! 13 AND (TCP_SYN OR TCP_ACK) = TCP_SYN OR TCP_ACK"
  "syn_ack_segment ! 13 AND TCP_RST = 0"
  by (simp_all add: syn_ack_segment_def be16_def be32_def get_initial_seq_def
      TCP_SYN_def TCP_ACK_def TCP_RST_def)

lemma syn_conns:
  "connections world_syn = [conn_syn, zero_conn, zero_conn, zero_conn]"
  "connections world_evicted = [conn_syn, zero_conn, zero_conn, zero_conn]"
  by (simp_all add: world_syn_def world_evicted_def)

lemma syn_find:
  "find_conn world_syn gw_ip 49152 80 = 0"
  "find_conn world_evicted gw_ip 49152 80 = 0"
  by (simp_all add: find_conn_def first_index_def syn_conns MAX_TCP_CONNS_def upt_4
      conn_syn_def zero_conn_state ip_match_def)

lemma conn_syn_fields:
  "tc_state conn_syn = TCP_SYN_SENT"
  "tc_seq_num conn_syn = get_initial_seq 0x12345678 + 1"
  by (simp_all add: conn_syn_def)

lemma syn_route: "route_mac world_syn = Some gw_mac"
  by (simp add: route_mac_def world_syn_def world_boot_def boot_cache ip_match_def)

theorem tcp_handshake_established_witness:
  "tcp_connect world_boot gw_ip 80 = (world_syn, 0)
   \<and> find_conn world_syn gw_ip (be16 (syn_ack_segment ! 2) (syn_ack_segment ! 3))
        (be16 (syn_ack_segment ! 0) (syn_ack_segment ! 1)) = 0
   \<and> tc_state (connections world_syn ! 0) = TCP_SYN_SENT
   \<and> tc_seq_num (connections world_syn ! 0) = get_initial_seq 0x12345678 + 1
   \<and> syn_ack_segment ! 13 AND (TCP_SYN OR TCP_ACK) = TCP_SYN OR TCP_ACK
   \<and> syn_ack_segment ! 13 AND TCP_RST = 0
   \<and> be32 (syn_ack_segment ! 8) (syn_ack_segment ! 9) (syn_ack_segment ! 10)
        (syn_ack_segment ! 11) = tc_seq_num (connections world_syn ! 0)
   \<and> route_mac world_syn = Some gw_mac
   \<and> tc_state (connections (tcp_handle_packet world_syn gw_ip syn_ack_segment 20) ! 0)
        = TCP_ESTABLISHED
   \<and> tc_ack_num (connections (tcp_handle_packet world_syn gw_ip syn_ack_segment 20) ! 0)
        = 5001
   \<and> tx_log (tcp_handle_packet world_syn gw_ip syn_ack_segment 20)
        = [syn_frame, TX_TCP (ack_frame world_syn conn_syn gw_mac 5000)]
   \<and> tf_flags (ack_frame world_syn conn_syn gw_mac 5000) = TCP_ACK
   \<and> tf_seq (ack_frame world_syn conn_syn gw_mac 5000) = get_initial_seq 0x12345678 + 1
   \<and> tf_ack (ack_frame world_syn conn_syn gw_mac 5000) = 5001"
proof -
  have c0: "connections world_syn ! nat 0 = conn_syn" by (simp add: syn_conns)
  have 1: "find_conn world_syn gw_ip (be16 (syn_ack_segment ! 2) (syn_ack_segment ! 3))
        (be16 (syn_ack_segment ! 0) (syn_ack_segment ! 1)) = 0"
    by (simp only: syn_ack_fields syn_find)
  have 2: "(0::int) \<le> 0" by simp
  have 3: "tc_state (connections world_syn ! nat 0) = TCP_SYN_SENT"
    by (simp only: c0 conn_syn_fields)
  have 6: "be32 (syn_ack_segment ! 8) (syn_ack_segment ! 9) (syn_ack_segment ! 10)
        (syn_ack_segment ! 11) = tc_seq_num (connections world_syn ! nat 0)"
    by (simp only: c0 conn_syn_fields syn_ack_fields)
  note t = tcp_handshake_established[OF 1 2 3 syn_ack_fields(5) syn_ack_fields(6) 6
      refl refl refl refl, where mac = gw_mac and len = 20 and wa = world_boot
      and maca = gw_mac and j = 0 and ip = gw_ip and port = 80,
      unfolded c0 syn_ack_fields]
  have l: "tx_log world_syn = [syn_frame]" by (simp add: world_syn_def)
  show ?thesis
    using t 1 3 6 syn_route boot_route boot_free world_syn_connect
    by (simp add: c0 conn_syn_fields syn_ack_fields l ack_frame_def)
qed

text \<open>
  Claim C2 as stated fails where the ARP cache no longer holds the gateway when the
  SYN-ACK arrives: the connection made by \<open>tcp_connect\<close> (its SYN sent, \<open>seq_num = iss + 1\<close>)
  becomes \<open>ESTABLISHED\<close> with \<open>ack_num = seq + 1\<close>, but no ACK segment is sent: the only
  frame added to the log is an ARP request.
\<close>

theorem tcp_handshake_ack_not_sent:
  "tcp_connect world_boot gw_ip 80 = (world_syn, 0)
   \<and> tx_log world_syn = [syn_frame]
   \<and> connections world_evicted = connections world_syn
   \<and> tc_state (connections world_evicted ! 0) = TCP_SYN_SENT
   \<and> tc_seq_num (connections world_evicted ! 0) = get_initial_seq 0x12345678 + 1
   \<and> find_conn world_evicted gw_ip (be16 (syn_ack_segment ! 2) (syn_ack_segment ! 3))
        (be16 (syn_ack_segment ! 0) (syn_ack_segment ! 1)) = 0
   \<and> syn_ack_segment ! 13 = TCP_SYN OR TCP_ACK
   \<and> be32 (syn_ack_segment ! 8) (syn_ack_segment ! 9) (syn_ack_segment ! 10)
        (syn_ack_segment ! 11) = get_initial_seq 0x12345678 + 1
   \<and> tc_state (connections (tcp_handle_packet world_evicted gw_ip syn_ack_segment 20) ! 0)
        = TCP_ESTABLISHED
   \<and> tc_ack_num (connections (tcp_handle_packet world_evicted gw_ip syn_ack_segment 20) ! 0)
        = 5001
   \<and> tx_log (tcp_handle_packet world_evicted gw_ip syn_ack_segment 20)
        = [syn_frame, TX_ARP_REQUEST gw_ip]"
proof -
  have c0: "connections world_evicted ! nat 0 = conn_syn" by (simp add: syn_conns)
  have 1: "find_conn world_evicted gw_ip (be16 (syn_ack_segment ! 2) (syn_ack_segment ! 3))
        (be16 (syn_ack_segment ! 0) (syn_ack_segment ! 1)) = 0"
    by (simp only: syn_ack_fields syn_find)
  have 2: "(0::int) \<le> 0" by simp
  have 3: "tc_state (connections world_evicted ! nat 0) = TCP_SYN_SENT"
    by (simp only: c0 conn_syn_fields)
  have 6: "be32 (syn_ack_segment ! 8) (syn_ack_segment ! 9) (syn_ack_segment ! 10)
        (syn_ack_segment ! 11) = tc_seq_num (connections world_evicted ! nat 0)"
    by (simp only: c0 conn_syn_fields syn_ack_fields)
  note t = handshake_outcome[OF 1 2 3 syn_ack_fields(5) syn_ack_fields(6) 6
      refl refl refl refl, where len = 20, unfolded c0 syn_ack_fields]
  have e: "net_available world_evicted" "cfg_configured world_evicted"
    "cfg_gateway world_evicted = gw_ip" "tx_log world_evicted = [syn_frame]"
    "tx_log world_syn = [syn_frame]"
    by (simp_all add: world_evicted_def world_syn_def world_boot_def)
  have f: "syn_ack_segment ! 13 = TCP_SYN OR TCP_ACK"
    by (simp add: syn_ack_segment_def TCP_SYN_def TCP_ACK_def)
  show ?thesis
    using t 1 world_syn_connect f
    by (simp add: e evicted_route syn_conns conn_syn_fields syn_ack_fields)
qed


section \<open>WebSocket frames (kernel/websocket.c)\<close>

text \<open>
  The state holds the fields of \<open>websocket_t\<close> that the frame code touches, the seed of
  \<open>ws_rand\<close> (a static of the file) and the frames handed to \<open>tcp_send\<close>.
\<close>

definition WS_MAX_MESSAGE :: nat where
  "WS_MAX_MESSAGE = 2048"

definition WS_OP_CLOSE :: u8 where "WS_OP_CLOSE = 0x08"
definition WS_OP_PING :: u8 where "WS_OP_PING = 0x09"
definition WS_OP_PONG :: u8 where "WS_OP_PONG = 0x0A"

definition WS_STATE_CLOSED :: int where
  "WS_STATE_CLOSED = 0"

record ws_world =
  ws_state :: int
  ws_rx_buffer :: "u8 list"
  ws_rx_len :: int
  ws_rx_ready :: int
  ws_rx_opcode :: int
  ws_rand_seed :: u32
  ws_tx :: "u8 list list"

definition ws_rand :: "u32 \<Rightarrow> u32" where
  "ws_rand seed = seed * 1103515245 + 12345"

text \<open>The payload loop of \<open>send_frame\<close>: \<open>frame[pos++] = data[i] ^ mask_bytes[i % 4]\<close>.\<close>

fun mask_loop :: "u8 list \<Rightarrow> u8 list \<Rightarrow> nat \<Rightarrow> u8 list" where
  "mask_loop key [] i = []"
| "mask_loop key (d # ds) i = (d XOR key ! (i mod 4)) # mask_loop key ds (Suc i)"

text \<open>
  \<open>send_frame\<close> returns -1 for a payload of 65536 bytes or more. The frame is built in
  a local array of \<open>WS_MAX_MESSAGE + 14\<close> bytes with no bound check; a frame that does
  not fit writes past the array, which the model reports as an error of its own.
  Otherwise the result is the new seed and the bytes passed to \<open>tcp_send\<close>.
\<close>

datatype send_error = FRAME_TOO_LONG | FRAME_ARRAY_OVERRUN

definition send_frame :: "u32 \<Rightarrow> u8 \<Rightarrow> u8 list \<Rightarrow> send_error + (u32 \<times> u8 list)" where
  "send_frame seed opcode data =
     (let len = length data;
          b0 = 0x80 OR (opcode AND 0x0F)
      in if 65536 \<le> len then Inl FRAME_TOO_LONG
         else
           (let hdr = (if len < 126 then [b0, 0x80 OR of_nat len]
                       else [b0, 0x80 OR 126, of_nat (drop_bit 8 len AND 0xFF),
                             of_nat (len AND 0xFF)]);
                mask = ws_rand seed;
                mask_bytes = [ucast (drop_bit 24 mask AND 0xFF), ucast (drop_bit 16 mask AND 0xFF),
                              ucast (drop_bit 8 mask AND 0xFF), ucast (mask AND 0xFF)];
                frame = hdr @ mask_bytes @ mask_loop mask_bytes data 0
            in if WS_MAX_MESSAGE + 14 < length frame then Inl FRAME_ARRAY_OVERRUN
               else Inr (mask, frame)))"

text \<open>\<open>send_frame\<close> as a step of the state: the result of \<open>tcp_send\<close> is not used by
  \<open>parse_frame\<close>.\<close>

definition ws_send :: "ws_world \<Rightarrow> u8 \<Rightarrow> u8 list \<Rightarrow> ws_world" where
  "ws_send w opcode data =
     (case send_frame (ws_rand_seed w) opcode data of
        Inl _ \<Rightarrow> w
      | Inr (seed, frame) \<Rightarrow> w\<lparr>ws_rand_seed := seed, ws_tx := ws_tx w @ [frame]\<rparr>)"

text \<open>
  The copy loop of \<open>parse_frame\<close>:
  \<open>for (i = 0; i < payload_len && ws->rx_len < WS_MAX_MESSAGE - 1; i++)\<close>; \<open>rx_len\<close> starts at
  0 and grows with \<open>i\<close>. The list is the payload bytes \<open>data[pos .. pos + payload_len)\<close>.
\<close>

fun rx_loop :: "bool \<Rightarrow> u8 list \<Rightarrow> u8 list \<Rightarrow> nat \<Rightarrow> u8 list" where
  "rx_loop m key [] i = []"
| "rx_loop m key (b # bs) i =
     (if i < WS_MAX_MESSAGE - 1
      then (if m then b XOR key ! (i mod 4) else b) # rx_loop m key bs (Suc i)
      else [])"

text \<open>
  The second half of \<open>parse_frame\<close>: copy and unmask the payload into \<open>rx_buffer\<close>
  (NUL-terminated), then handle control frames. \<open>payload\<close> is
  \<open>data[pos .. pos + payload_len)\<close>.
\<close>

definition ws_deliver :: "ws_world \<Rightarrow> u8 \<Rightarrow> bool \<Rightarrow> u8 list \<Rightarrow> u8 list \<Rightarrow> ws_world" where
  "ws_deliver w opcode m mask_key payload =
     (let rx = rx_loop m mask_key payload 0;
          w1 = w\<lparr>ws_rx_opcode := uint opcode, ws_rx_len := int (length rx),
                  ws_rx_buffer := rx @ [0] @ drop (length rx + 1) (ws_rx_buffer w)\<rparr>
      in if opcode = WS_OP_PING then (ws_send w1 WS_OP_PONG rx)\<lparr>ws_rx_ready := 0\<rparr>
         else if opcode = WS_OP_CLOSE
         then (ws_send w1 WS_OP_CLOSE [])\<lparr>ws_state := WS_STATE_CLOSED, ws_rx_ready := 0\<rparr>
         else if opcode = WS_OP_PONG then w1\<lparr>ws_rx_ready := 0\<rparr>
         else w1\<lparr>ws_rx_ready := 1\<rparr>)"

text \<open>
  \<open>parse_frame\<close> gets the received bytes (\<open>len\<close> is their number) and returns the new
  state and the number of bytes consumed (0: more data needed).
\<close>

definition parse_frame :: "ws_world \<Rightarrow> u8 list \<Rightarrow> ws_world \<times> int" where
  "parse_frame w data =
     (let len = int (length data) in
      if len < 2 then (w, 0)
      else
        (let byte1 = data ! 0; byte2 = data ! 1;
             opcode = byte1 AND 0x0F;
             m = (drop_bit 7 byte2 AND 1 \<noteq> 0);
             len7 = uint (byte2 AND 0x7F)
         in if len7 = 126 \<and> len < 4 then (w, 0)
            else if len7 = 127 \<and> len < 10 then (w, 0)
            else
              (let (payload_len, pos) =
                     (if len7 = 126
                      then (push_bit 8 (uint (data ! 2)) OR uint (data ! 3), 4)
                      else if len7 = 127
                      then (sint (be32 (data ! 6) (data ! 7) (data ! 8) (data ! 9)), 10)
                      else (len7, 2::int))
               in if m \<and> pos + 4 > len then (w, 0)
                  else
                    (let mask_key = (if m then take 4 (drop (nat pos) data)
                                     else [0, 0, 0, 0]);
                         pos = (if m then pos + 4 else pos)
                     in if pos + payload_len > len then (w, 0)
                        else (ws_deliver w opcode m mask_key
                                (take (nat payload_len) (drop (nat pos) data)),
                              pos + payload_len)))))"

subsection \<open>Header bytes\<close>

lemma c15: "(0x0F :: u8) = mask 4" by (simp add: mask_eq_exp_minus_1)
lemma c127: "(0x7F :: u8) = mask 7" by (simp add: mask_eq_exp_minus_1)

lemma high_bit_and_mask:
  "m \<le> 7 \<Longrightarrow> ((push_bit 7 a :: u8) OR x) AND mask m = x AND mask m"
  by (rule bit_word_eqI) (auto simp: bit_simps)

lemma high_bit_drop:
  "drop_bit 7 ((push_bit 7 a :: u8) OR x) AND 1 = (a OR drop_bit 7 x) AND 1"
  by (rule bit_word_eqI) (auto simp: bit_simps)

lemma one_or_and_one: "((1 :: u8) OR y) AND 1 = 1"
  by (rule bit_word_eqI) (auto simp: bit_simps)

lemma opcode_byte: "((0x80 :: u8) OR (opcode AND 0x0F)) AND 0x0F = opcode AND 0x0F"
  using high_bit_and_mask[of 4 1 "opcode AND 0x0F"] by (simp add: c15)

lemma opcode_small: "opcode < 16 \<Longrightarrow> (opcode :: u8) AND 0x0F = opcode"
  unfolding c15 by (rule less_mask_eq) simp

lemma mask_bit: "drop_bit 7 ((0x80 :: u8) OR x) AND 1 \<noteq> 0"
  using high_bit_drop[of 1 x] by (simp add: one_or_and_one)

lemma len7_small:
  assumes "n < 126"
  shows "uint (((0x80 :: u8) OR of_nat n) AND 0x7F) = int n"
proof -
  have "((0x80 :: u8) OR of_nat n) AND mask 7 = of_nat n AND mask 7"
    using high_bit_and_mask[of 7 1 "of_nat n"] by simp
  also have "(of_nat n :: u8) AND mask 7 = of_nat n"
    using assms by (intro less_mask_eq) (simp add: word_less_nat_alt unat_of_nat)
  finally have "((0x80 :: u8) OR of_nat n) AND 0x7F = of_nat n"
    unfolding c127 .
  moreover have "uint (of_nat n :: u8) = int n"
    using assms by (simp add: uint_nat unat_of_nat)
  ultimately show ?thesis by simp
qed

lemma len7_ext: "uint (((0x80 :: u8) OR 126) AND 0x7F) = 126"
  by simp

lemma ext_len:
  assumes "n < 65536"
  shows "push_bit 8 (uint (of_nat (drop_bit 8 n AND 0xFF) :: u8))
           OR uint (of_nat (n AND 0xFF) :: u8) = int n"
proof -
  have m: "(0xFF :: nat) = mask 8" by (simp add: mask_eq_exp_minus_1)
  have hi: "drop_bit 8 n AND 0xFF = n div 256"
    using assms unfolding m by (simp add: take_bit_eq_mask[symmetric] take_bit_eq_mod drop_bit_eq_div)
  have lo: "n AND 0xFF = n mod 256"
    unfolding m by (simp add: take_bit_eq_mask[symmetric] take_bit_eq_mod)
  have uh: "uint (of_nat (n div 256) :: u8) = int (n div 256)"
    using assms by (simp add: uint_nat unat_of_nat)
  have ul: "uint (of_nat (n mod 256) :: u8) = int (n mod 256)"
    by (simp add: uint_nat unat_of_nat)
  have t: "take_bit 8 (int (n mod 256)) = int (n mod 256)"
    by (simp add: take_bit_eq_mod)
  have "push_bit 8 (int (n div 256)) OR int (n mod 256)
          = concat_bit 8 (int (n mod 256)) (int (n div 256))"
    unfolding concat_bit_def t by (simp add: or.commute)
  also have "\<dots> = int (n mod 256) + push_bit 8 (int (n div 256))"
    unfolding concat_bit_eq t ..
  also have "\<dots> = int n"
    by (simp add: push_bit_eq_mult zmod_int zdiv_int)
  finally show ?thesis unfolding hi lo uh ul .
qed

lemma xor_twice: "((d :: u8) XOR k) XOR k = d"
  by (simp add: xor.assoc)


lemma length_mask_loop: "length (mask_loop key data i) = length data"
  by (induction data arbitrary: i) simp_all

lemma rx_mask_loop:
  "rx_loop True key (mask_loop key data i) i = take (WS_MAX_MESSAGE - 1 - i) data"
proof (induction data arbitrary: i)
  case Nil
  show ?case by simp
next
  case (Cons d ds)
  show ?case
  proof (cases "i < WS_MAX_MESSAGE - 1")
    case True
    then have "WS_MAX_MESSAGE - 1 - i = Suc (WS_MAX_MESSAGE - 1 - Suc i)" by simp
    then show ?thesis using True Cons.IH[of "Suc i"] by (simp add: xor_twice)
  next
    case False
    then show ?thesis by simp
  qed
qed

definition mask_bytes_of :: "u32 \<Rightarrow> u8 list" where
  "mask_bytes_of m =
     [ucast (drop_bit 24 m AND 0xFF), ucast (drop_bit 16 m AND 0xFF),
      ucast (drop_bit 8 m AND 0xFF), ucast (m AND 0xFF)]"

definition frame_of :: "u32 \<Rightarrow> u8 \<Rightarrow> u8 list \<Rightarrow> u8 list" where
  "frame_of m opcode data =
     (if length data < 126
      then [0x80 OR (opcode AND 0x0F), 0x80 OR of_nat (length data)]
      else [0x80 OR (opcode AND 0x0F), 0x80 OR 126,
            of_nat (drop_bit 8 (length data) AND 0xFF), of_nat (length data AND 0xFF)])
     @ mask_bytes_of m @ mask_loop (mask_bytes_of m) data 0"

lemma length_frame_of:
  "length (frame_of m opcode data) = (if length data < 126 then 6 else 8) + length data"
  by (simp add: frame_of_def mask_bytes_of_def length_mask_loop)

lemma send_frame_fits:
  assumes "length data \<le> 2054"
  shows "send_frame seed opcode data = Inr (ws_rand seed, frame_of (ws_rand seed) opcode data)"
proof -
  have "length (frame_of (ws_rand seed) opcode data) \<le> WS_MAX_MESSAGE + 14"
    using assms by (simp add: length_frame_of WS_MAX_MESSAGE_def)
  then show ?thesis using assms
    unfolding send_frame_def Let_def frame_of_def mask_bytes_of_def
    by (simp split: if_splits)
qed

lemma parse_small:
  assumes "length bytes < 126" "length key = 4"
  shows "parse_frame w ([0x80 OR (opcode AND 0x0F), 0x80 OR of_nat (length bytes)] @ key @ bytes)
       = (ws_deliver w (opcode AND 0x0F) True key bytes, 6 + int (length bytes))"
proof -
  let ?b2 = "(0x80 :: u8) OR of_nat (length bytes)"
  define f where "f = [0x80 OR (opcode AND 0x0F), ?b2] @ key @ bytes"
  have l: "uint (?b2 AND 0x7F) = int (length bytes)"
    by (rule len7_small[OF assms(1)])
  have n: "int (length bytes) \<noteq> 126" "int (length bytes) \<noteq> 127" using assms(1) by simp_all
  have f0: "f ! 0 = 0x80 OR (opcode AND 0x0F)" "f ! 1 = ?b2" by (simp_all add: f_def)
  have len: "int (length f) = 6 + int (length bytes)" using assms by (simp add: f_def)
  have k: "take 4 (drop 2 f) = key" using assms by (simp add: f_def)
  have p: "take (length bytes) (drop 6 f) = bytes"
    using assms by (simp add: f_def)
  have "parse_frame w f
       = (ws_deliver w (opcode AND 0x0F) True key bytes, 6 + int (length bytes))"
    unfolding parse_frame_def Let_def f0 l len
    using n by (simp add: mask_bit opcode_byte k p)
  then show ?thesis unfolding f_def .
qed


lemma parse_ext:
  assumes "126 \<le> length bytes" "length bytes < 65536" "length key = 4"
  shows "parse_frame w ([0x80 OR (opcode AND 0x0F), 0x80 OR 126,
            of_nat (drop_bit 8 (length bytes) AND 0xFF), of_nat (length bytes AND 0xFF)]
            @ key @ bytes)
       = (ws_deliver w (opcode AND 0x0F) True key bytes, 8 + int (length bytes))"
proof -
  define f where "f = [0x80 OR (opcode AND 0x0F), 0x80 OR 126,
            of_nat (drop_bit 8 (length bytes) AND 0xFF), of_nat (length bytes AND 0xFF)]
            @ key @ bytes"
  have f0: "f ! 0 = 0x80 OR (opcode AND 0x0F)" "f ! 1 = 0x80 OR 126"
    "f ! 2 = of_nat (drop_bit 8 (length bytes) AND 0xFF)"
    "f ! 3 = of_nat (length bytes AND 0xFF)"
    by (simp_all add: f_def)
  have len: "int (length f) = 8 + int (length bytes)" using assms by (simp add: f_def)
  have k: "take 4 (drop 4 f) = key" using assms by (simp add: f_def)
  have p: "take (length bytes) (drop 8 f) = bytes"
    using assms by (simp add: f_def)
  have e: "push_bit 8 (uint (of_nat (drop_bit 8 (length bytes) AND 0xFF) :: u8))
           OR uint (of_nat (length bytes AND 0xFF) :: u8) = int (length bytes)"
    by (rule ext_len[OF assms(2)])
  have m: "drop_bit 7 ((0x80 :: u8) OR 126) AND 1 \<noteq> 0" by (rule mask_bit)
  have "parse_frame w f
       = (ws_deliver w (opcode AND 0x0F) True key bytes, 8 + int (length bytes))"
    unfolding parse_frame_def Let_def f0 len len7_ext e
    using m by (simp add: opcode_byte k p)
  then show ?thesis unfolding f_def .
qed

lemma length_mask_bytes_of: "length (mask_bytes_of m) = 4"
  by (simp add: mask_bytes_of_def)

lemma parse_frame_of:
  assumes "length data < 65536"
  shows "parse_frame w (frame_of m opcode data)
       = (ws_deliver w (opcode AND 0x0F) True (mask_bytes_of m)
            (mask_loop (mask_bytes_of m) data 0),
          int (length (frame_of m opcode data)))"
proof (cases "length data < 126")
  case True
  then show ?thesis
    using parse_small[of "mask_loop (mask_bytes_of m) data 0" "mask_bytes_of m" w opcode]
    by (simp add: frame_of_def length_mask_loop length_mask_bytes_of)
next
  case False
  then show ?thesis
    using assms parse_ext[of "mask_loop (mask_bytes_of m) data 0" "mask_bytes_of m" w opcode]
    by (simp add: frame_of_def length_mask_loop length_mask_bytes_of)
qed

lemma ws_send_fields:
  "ws_rx_opcode (ws_send w op d) = ws_rx_opcode w"
  "ws_rx_len (ws_send w op d) = ws_rx_len w"
  "ws_rx_buffer (ws_send w op d) = ws_rx_buffer w"
  by (simp_all add: ws_send_def split: sum.splits prod.splits)

lemma ws_deliver_fields:
  "ws_rx_opcode (ws_deliver w op m key pl) = uint op"
  "ws_rx_len (ws_deliver w op m key pl) = int (length (rx_loop m key pl 0))"
  "ws_rx_buffer (ws_deliver w op m key pl)
     = rx_loop m key pl 0 @ [0] @ drop (length (rx_loop m key pl 0) + 1) (ws_rx_buffer w)"
  by (simp_all add: ws_deliver_def Let_def ws_send_fields)

lemma frame_received:
  assumes "length data \<le> 2054"
  shows "send_frame seed opcode data = Inr (ws_rand seed, frame_of (ws_rand seed) opcode data)
       \<and> snd (parse_frame w (frame_of (ws_rand seed) opcode data))
            = int (length (frame_of (ws_rand seed) opcode data))
       \<and> ws_rx_opcode (fst (parse_frame w (frame_of (ws_rand seed) opcode data)))
            = uint (opcode AND 0x0F)
       \<and> ws_rx_len (fst (parse_frame w (frame_of (ws_rand seed) opcode data)))
            = int (min (WS_MAX_MESSAGE - 1) (length data))
       \<and> take (min (WS_MAX_MESSAGE - 1) (length data))
            (ws_rx_buffer (fst (parse_frame w (frame_of (ws_rand seed) opcode data))))
            = take (WS_MAX_MESSAGE - 1) data"
proof -
  have l: "length data < 65536" using assms by simp
  have r: "rx_loop True (mask_bytes_of (ws_rand seed))
             (mask_loop (mask_bytes_of (ws_rand seed)) data 0) 0 = take (WS_MAX_MESSAGE - 1) data"
    using rx_mask_loop[of "mask_bytes_of (ws_rand seed)" data 0] by simp
  show ?thesis
    by (simp add: send_frame_fits[OF assms] parse_frame_of[OF l] ws_deliver_fields r min_def)
qed

text \<open>
  Claim C8, as the code has it. For every opcode (a 4-bit value) and every payload of at
  most \<open>WS_MAX_MESSAGE - 1 = 2047\<close> bytes, \<open>send_frame\<close> produces a frame, and
  \<open>parse_frame\<close> applied to that frame consumes all of it and leaves exactly the
  original opcode in \<open>rx_opcode\<close>, the payload length in \<open>rx_len\<close> and the payload bytes
  at the front of \<open>rx_buffer\<close>, whatever the mask drawn from the generator.
\<close>

theorem ws_frame_round_trip:
  assumes "opcode < 16" "length payload \<le> WS_MAX_MESSAGE - 1"
  shows "case send_frame seed opcode payload of
           Inl e \<Rightarrow> False
         | Inr (seed', frame) \<Rightarrow>
             seed' = ws_rand seed
           \<and> snd (parse_frame w frame) = int (length frame)
           \<and> ws_rx_opcode (fst (parse_frame w frame)) = uint opcode
           \<and> ws_rx_len (fst (parse_frame w frame)) = int (length payload)
           \<and> take (length payload) (ws_rx_buffer (fst (parse_frame w frame))) = payload"
proof -
  have l: "length payload \<le> 2054" using assms(2) by (simp add: WS_MAX_MESSAGE_def)
  have m: "min (WS_MAX_MESSAGE - 1) (length payload) = length payload"
    using assms(2) by simp
  have t: "take (WS_MAX_MESSAGE - 1) payload = payload" using assms(2) by simp
  show ?thesis
    using frame_received[OF l, of seed opcode w] opcode_small[OF assms(1)]
    unfolding m t by simp
qed

definition ws_idle :: ws_world where
  "ws_idle = \<lparr>ws_state = 2, ws_rx_buffer = replicate 2048 0, ws_rx_len = 0, ws_rx_ready = 0,
     ws_rx_opcode = 0, ws_rand_seed = 0x12345678, ws_tx = []\<rparr>"

definition hello :: "u8 list" where
  "hello = [104, 101, 108, 108, 111]"

theorem ws_frame_round_trip_witness:
  "(1 :: u8) < 16 \<and> length hello \<le> WS_MAX_MESSAGE - 1
   \<and> send_frame 0x12345678 1 hello
        = Inr (191992145, [129, 133, 11, 113, 145, 81, 99, 20, 253, 61, 100])
   \<and> snd (parse_frame ws_idle [129, 133, 11, 113, 145, 81, 99, 20, 253, 61, 100]) = 11
   \<and> ws_rx_opcode (fst (parse_frame ws_idle [129, 133, 11, 113, 145, 81, 99, 20, 253, 61, 100]))
        = 1
   \<and> ws_rx_len (fst (parse_frame ws_idle [129, 133, 11, 113, 145, 81, 99, 20, 253, 61, 100]))
        = 5
   \<and> take (length hello) (ws_rx_buffer
        (fst (parse_frame ws_idle [129, 133, 11, 113, 145, 81, 99, 20, 253, 61, 100])))
        = hello"
proof -
  have a: "(1 :: u8) < 16" by simp
  have b: "length hello \<le> WS_MAX_MESSAGE - 1" by (simp add: hello_def WS_MAX_MESSAGE_def)
  have s: "send_frame 0x12345678 1 hello
        = Inr (191992145, [129, 133, 11, 113, 145, 81, 99, 20, 253, 61, 100])"
    by (simp add: send_frame_def hello_def ws_rand_def WS_MAX_MESSAGE_def Let_def)
  have lh: "length hello = 5" by (simp add: hello_def)
  show ?thesis
    using ws_frame_round_trip[OF a b, of "0x12345678" ws_idle] a b lh
    unfolding s by simp
qed

text \<open>
  Claim C8 as stated fails for payloads of 2048 to 2054 bytes: they are shorter than
  65536 and fit the frame array of \<open>send_frame\<close> (\<open>WS_MAX_MESSAGE + 14\<close> bytes), but the
  copy loop of \<open>parse_frame\<close> stops at \<open>WS_MAX_MESSAGE - 1\<close> bytes.
\<close>

definition big_payload :: "u8 list" where
  "big_payload = replicate 2048 65"

theorem ws_frame_truncated:
  "length big_payload = 2048
   \<and> send_frame 0x12345678 2 big_payload
        = Inr (ws_rand 0x12345678, frame_of (ws_rand 0x12345678) 2 big_payload)
   \<and> length (frame_of (ws_rand 0x12345678) 2 big_payload) = 2056
   \<and> snd (parse_frame ws_idle (frame_of (ws_rand 0x12345678) 2 big_payload)) = 2056
   \<and> ws_rx_len (fst (parse_frame ws_idle (frame_of (ws_rand 0x12345678) 2 big_payload)))
        = 2047"
proof -
  have l: "length big_payload = 2048" by (simp add: big_payload_def)
  then have f: "length big_payload \<le> 2054" by simp
  show ?thesis
    using frame_received[OF f, of "0x12345678" 2 ws_idle] l
    by (simp add: length_frame_of WS_MAX_MESSAGE_def)
qed


section \<open>DNS responses (kernel/net/net.c)\<close>

text \<open>
  \<open>active_dns_query\<close> points to the caller's query handle or is NULL; the model holds the
  handle itself. A received datagram is the list of its \<open>len\<close> bytes, a pointer into it
  is an index, \<open>end\<close> is the length.
\<close>

datatype dns_state = DNS_STATE_IDLE | DNS_STATE_PENDING | DNS_STATE_DONE | DNS_STATE_ERROR

record dns_query =
  dq_state :: dns_state
  dq_result_ip :: "u8 list"
  dq_query_id :: u16
  dq_timeout_tick :: u32
  dq_retry_tick :: u32
  dq_hostname :: string

text \<open>
  Skipping QNAME: \<open>while (p < end && *p != 0) { if ((*p & 0xC0) == 0xC0) { p += 2; break; }
  p += *p + 1; }\<close>.
\<close>

function skip_qname :: "u8 list \<Rightarrow> nat \<Rightarrow> nat" where
  "skip_qname data p =
     (if p < length data \<and> data ! p \<noteq> 0
      then (if data ! p AND 0xC0 = 0xC0 then p + 2
            else skip_qname data (p + unat (data ! p) + 1))
      else p)"
  by pat_completeness auto
termination
  by (relation "measure (\<lambda>(data, p). length data - p)") auto

text \<open>Skipping an uncompressed answer NAME: \<open>while (p < end && *p != 0) p += *p + 1;\<close>.\<close>

function skip_labels :: "u8 list \<Rightarrow> nat \<Rightarrow> nat" where
  "skip_labels data p =
     (if p < length data \<and> data ! p \<noteq> 0
      then skip_labels data (p + unat (data ! p) + 1)
      else p)"
  by pat_completeness auto
termination
  by (relation "measure (\<lambda>(data, p). length data - p)") auto

declare skip_qname.simps [simp del] skip_labels.simps [simp del]

text \<open>
  The part of \<open>handle_dns_response\<close> under the comment \<open>Parse first answer\<close>: \<open>p\<close> points
  behind the question. The handle is returned unchanged where the source returns early.
\<close>

definition dns_first_answer :: "dns_query \<Rightarrow> u8 list \<Rightarrow> nat \<Rightarrow> dns_query" where
  "dns_first_answer q data p3 =
     (let len = length data in
      if p3 + 12 > len then q
      else
        (let p4 = (if data ! p3 AND 0xC0 = 0xC0 then p3 + 2
                   else (let p = skip_labels data p3 in
                         if p < len \<and> data ! p = 0 then p + 1 else p))
         in if p4 + 10 > len then q
            else
              (let atype = be16 (data ! p4) (data ! (p4 + 1));
                   rdlen = be16 (data ! (p4 + 8)) (data ! (p4 + 9));
                   p5 = p4 + 10
               in if atype = 1 \<and> rdlen = 4 \<and> p5 + 4 \<le> len
                  then q\<lparr>dq_result_ip := take 4 (drop p5 data), dq_state := DNS_STATE_DONE\<rparr>
                  else q\<lparr>dq_state := DNS_STATE_ERROR\<rparr>)))"

definition handle_dns_response :: "dns_query option \<Rightarrow> u8 list \<Rightarrow> dns_query option" where
  "handle_dns_response active data =
     (let len = length data in
      if len < 12 then active
      else case active of
        None \<Rightarrow> active
      | Some q \<Rightarrow>
          if dq_state q \<noteq> DNS_STATE_PENDING then active
          else
            (let qid = be16 (data ! 0) (data ! 1) in
             if qid \<noteq> dq_query_id q then active
             else
               (let flags = be16 (data ! 2) (data ! 3) in
                if flags AND 0x8000 = 0 then active
                else if flags AND 0x000F \<noteq> 0 then Some (q\<lparr>dq_state := DNS_STATE_ERROR\<rparr>)
                else
                  (let ancount = be16 (data ! 6) (data ! 7) in
                   if ancount = 0 then Some (q\<lparr>dq_state := DNS_STATE_ERROR\<rparr>)
                   else
                     (let p1 = skip_qname data 12;
                          p2 = (if p1 < len \<and> data ! p1 = 0 then p1 + 1 else p1);
                          p3 = p2 + 4
                      in Some (dns_first_answer q data p3))))))"

text \<open>
  The layout of a DNS response, to state which packets the theorems are about: a
  12-byte header, one question (name as length-prefixed labels, type, class) and the
  answer records, each a name (a two-byte compression pointer or labels), type, class,
  TTL, RDLENGTH and RDATA.
\<close>

definition enc16 :: "u16 \<Rightarrow> u8 list" where
  "enc16 v = [ucast (drop_bit 8 v), ucast v]"

definition enc_labels :: "u8 list list \<Rightarrow> u8 list" where
  "enc_labels ls = concat (map (\<lambda>l. of_nat (length l) # l) ls)"

definition label_ok :: "u8 list \<Rightarrow> bool" where
  "label_ok l \<longleftrightarrow> 0 < length l \<and> length l < 64"

datatype rr_name = NamePtr u8 u8 | NameLabels "u8 list list"

fun enc_rr_name :: "rr_name \<Rightarrow> u8 list" where
  "enc_rr_name (NamePtr a b) = [a, b]"
| "enc_rr_name (NameLabels ls) = enc_labels ls @ [0]"

fun rr_name_ok :: "rr_name \<Rightarrow> bool" where
  "rr_name_ok (NamePtr a b) \<longleftrightarrow> a AND 0xC0 = 0xC0"
| "rr_name_ok (NameLabels ls) \<longleftrightarrow> list_all label_ok ls"

record dns_rr =
  rr_owner :: rr_name
  rr_type :: u16
  rr_class :: u16
  rr_ttl :: "u8 list"
  rr_rdata :: "u8 list"

definition enc_rr :: "dns_rr \<Rightarrow> u8 list" where
  "enc_rr r = enc_rr_name (rr_owner r) @ enc16 (rr_type r) @ enc16 (rr_class r)
               @ rr_ttl r @ enc16 (of_nat (length (rr_rdata r))) @ rr_rdata r"

definition rr_ok :: "dns_rr \<Rightarrow> bool" where
  "rr_ok r \<longleftrightarrow> rr_name_ok (rr_owner r) \<and> length (rr_ttl r) = 4 \<and> length (rr_rdata r) < 65536"

definition dns_response :: "u16 \<Rightarrow> u16 \<Rightarrow> u8 list list \<Rightarrow> dns_rr list \<Rightarrow> u8 list" where
  "dns_response qid flags qname answers =
     enc16 qid @ enc16 flags @ enc16 1 @ enc16 (of_nat (length answers)) @ enc16 0 @ enc16 0
     @ enc_labels qname @ [0] @ enc16 1 @ enc16 1
     @ concat (map enc_rr answers)"

subsection \<open>Reading what the layout wrote\<close>

lemma be16_enc16: "be16 (ucast (drop_bit 8 v)) (ucast v) = (v :: u16)"
  unfolding be16_def by (rule bit_word_eqI) (auto simp: bit_simps)

lemma nth_enc16: "enc16 v ! 0 = ucast (drop_bit 8 v)" "enc16 v ! 1 = ucast v"
  by (simp_all add: enc16_def)

lemma length_enc16: "length (enc16 v) = 2"
  by (simp add: enc16_def)

lemma low_and_high: "((x :: u8) AND mask 6) AND push_bit 6 a = 0"
  by (rule bit_word_eqI) (auto simp: bit_simps)

lemma label_byte:
  assumes "label_ok l"
  shows "(of_nat (length l) :: u8) \<noteq> 0" "(of_nat (length l) :: u8) AND 0xC0 \<noteq> 0xC0"
    "unat (of_nat (length l) :: u8) = length l"
proof -
  have l: "0 < length l" "length l < 64" using assms by (simp_all add: label_ok_def)
  show u: "unat (of_nat (length l) :: u8) = length l"
    using l by (simp add: unat_of_nat)
  show "(of_nat (length l) :: u8) \<noteq> 0"
    using u l by (metis less_numeral_extra(3) unat_0)
  have "(of_nat (length l) :: u8) < 64"
    using l by (simp add: word_less_nat_alt unat_of_nat)
  then have "(of_nat (length l) :: u8) AND mask 6 = of_nat (length l)"
    by (intro less_mask_eq) simp
  then have "(of_nat (length l) :: u8) AND 0xC0 = (of_nat (length l) AND mask 6) AND 0xC0"
    by simp
  also have "\<dots> = 0"
    using low_and_high[of "of_nat (length l)" 3] by simp
  finally show "(of_nat (length l) :: u8) AND 0xC0 \<noteq> 0xC0" by simp
qed


lemma enc_labels_Cons: "enc_labels (l # ls) = of_nat (length l) # l @ enc_labels ls"
  by (simp add: enc_labels_def)

lemma enc_labels_Nil: "enc_labels [] = []"
  by (simp add: enc_labels_def)

lemma skip_qname_labels:
  "list_all label_ok ls \<Longrightarrow>
   skip_qname (pre @ enc_labels ls @ 0 # post) (length pre) = length pre + length (enc_labels ls)"
proof (induction ls arbitrary: pre)
  case Nil
  show ?case by (subst skip_qname.simps) (simp add: enc_labels_Nil)
next
  case (Cons l ls)
  have ok: "label_ok l" and oks: "list_all label_ok ls" using Cons.prems by simp_all
  let ?b = "of_nat (length l) :: u8"
  let ?data = "pre @ enc_labels (l # ls) @ 0 # post"
  let ?pre' = "pre @ ?b # l"
  have d: "?data = ?pre' @ enc_labels ls @ 0 # post" by (simp add: enc_labels_Cons)
  have at: "?data ! length pre = ?b" by (simp add: enc_labels_Cons)
  have lt: "length pre < length ?data" by (simp add: enc_labels_Cons)
  have "skip_qname ?data (length pre) = skip_qname ?data (length pre + unat ?b + 1)"
    by (subst skip_qname.simps) (simp only: at lt label_byte[OF ok] simp_thms if_True if_False)
  also have "length pre + unat ?b + 1 = length ?pre'" by (simp add: label_byte[OF ok])
  also have "skip_qname ?data (length ?pre') = length ?pre' + length (enc_labels ls)"
    unfolding d by (rule Cons.IH[OF oks])
  finally show ?case by (simp add: enc_labels_Cons)
qed

lemma skip_labels_labels:
  "list_all label_ok ls \<Longrightarrow>
   skip_labels (pre @ enc_labels ls @ 0 # post) (length pre) = length pre + length (enc_labels ls)"
proof (induction ls arbitrary: pre)
  case Nil
  show ?case by (subst skip_labels.simps) (simp add: enc_labels_Nil)
next
  case (Cons l ls)
  have ok: "label_ok l" and oks: "list_all label_ok ls" using Cons.prems by simp_all
  let ?b = "of_nat (length l) :: u8"
  let ?data = "pre @ enc_labels (l # ls) @ 0 # post"
  let ?pre' = "pre @ ?b # l"
  have d: "?data = ?pre' @ enc_labels ls @ 0 # post" by (simp add: enc_labels_Cons)
  have at: "?data ! length pre = ?b" by (simp add: enc_labels_Cons)
  have lt: "length pre < length ?data" by (simp add: enc_labels_Cons)
  have "skip_labels ?data (length pre) = skip_labels ?data (length pre + unat ?b + 1)"
    by (subst skip_labels.simps) (simp only: at lt label_byte[OF ok] simp_thms if_True if_False)
  also have "length pre + unat ?b + 1 = length ?pre'" by (simp add: label_byte[OF ok])
  also have "skip_labels ?data (length ?pre') = length ?pre' + length (enc_labels ls)"
    unfolding d by (rule Cons.IH[OF oks])
  finally show ?case by (simp add: enc_labels_Cons)
qed


lemma answer_name_end:
  assumes "rr_name_ok n"
  shows "(if (pre @ enc_rr_name n @ post) ! length pre AND 0xC0 = 0xC0 then length pre + 2
          else (let p = skip_labels (pre @ enc_rr_name n @ post) (length pre) in
                if p < length (pre @ enc_rr_name n @ post) \<and> (pre @ enc_rr_name n @ post) ! p = 0
                then p + 1 else p))
         = length pre + length (enc_rr_name n)"
proof (cases n)
  case (NamePtr a b)
  then show ?thesis using assms by simp
next
  case (NameLabels ls)
  then have oks: "list_all label_ok ls" using assms by simp
  let ?data = "pre @ enc_rr_name n @ post"
  have d: "?data = pre @ enc_labels ls @ 0 # post" using NameLabels by simp
  have first: "?data ! length pre AND 0xC0 \<noteq> 0xC0"
  proof (cases ls)
    case Nil
    then show ?thesis unfolding d by (simp add: enc_labels_Nil)
  next
    case (Cons l ls')
    then have "label_ok l" using oks by simp
    then show ?thesis unfolding d using Cons by (simp add: enc_labels_Cons label_byte)
  qed
  have s: "skip_labels ?data (length pre) = length pre + length (enc_labels ls)"
    unfolding d by (rule skip_labels_labels[OF oks])
  have z: "?data ! (length pre + length (enc_labels ls)) = 0"
    unfolding d by (simp add: nth_append)
  have lt: "length pre + length (enc_labels ls) < length ?data"
    unfolding d by simp
  show ?thesis
    using first z lt unfolding s Let_def by (simp add: NameLabels)
qed

lemma rdlen_is_4:
  assumes "n < 65536"
  shows "(of_nat n :: u16) = 4 \<longleftrightarrow> n = 4"
proof -
  have "unat (of_nat n :: u16) = n" using assms by (simp add: unat_of_nat)
  moreover have "unat (4 :: u16) = 4" by simp
  ultimately show ?thesis by (metis word_unat_eq_iff)
qed


definition rr_fixed :: "dns_rr \<Rightarrow> u8 list" where
  "rr_fixed r = enc16 (rr_type r) @ enc16 (rr_class r) @ rr_ttl r
                 @ enc16 (of_nat (length (rr_rdata r)))"

lemma rr_fixed_props:
  assumes "length (rr_ttl r) = 4"
  shows "length (rr_fixed r) = 10"
    "be16 (rr_fixed r ! 0) (rr_fixed r ! 1) = rr_type r"
    "be16 (rr_fixed r ! 8) (rr_fixed r ! 9) = of_nat (length (rr_rdata r))"
  using assms
  by (simp_all add: rr_fixed_def enc16_def nth_append be16_enc16)

lemma enc_rr_split: "enc_rr r = enc_rr_name (rr_owner r) @ rr_fixed r @ rr_rdata r"
  by (simp add: enc_rr_def rr_fixed_def)

lemma dns_first_answer_rr:
  assumes ok: "rr_ok r" and long: "12 \<le> length (enc_rr r @ rest)"
  shows "dns_first_answer q (pre @ enc_rr r @ rest) (length pre)
       = (if rr_type r = 1 \<and> length (rr_rdata r) = 4
          then q\<lparr>dq_result_ip := rr_rdata r, dq_state := DNS_STATE_DONE\<rparr>
          else q\<lparr>dq_state := DNS_STATE_ERROR\<rparr>)"
proof -
  let ?N = "enc_rr_name (rr_owner r)"
  let ?F = "rr_fixed r"
  let ?D = "rr_rdata r"
  define data where "data = pre @ enc_rr r @ rest"
  define p4 where "p4 = length pre + length ?N"
  have nok: "rr_name_ok (rr_owner r)" and ttl: "length (rr_ttl r) = 4"
    and dl: "length ?D < 65536"
    using ok by (simp_all add: rr_ok_def)
  note fx = rr_fixed_props[OF ttl]
  have d1: "data = pre @ ?N @ (?F @ ?D @ rest)" by (simp add: data_def enc_rr_split)
  have d2: "data = (pre @ ?N) @ ?F @ (?D @ rest)" by (simp add: data_def enc_rr_split)
  have d3: "data = (pre @ ?N @ ?F) @ ?D @ rest" by (simp add: data_def enc_rr_split)
  have e: "(if data ! length pre AND 0xC0 = 0xC0 then length pre + 2
          else (let p = skip_labels data (length pre) in
                if p < length data \<and> data ! p = 0 then p + 1 else p)) = p4"
    unfolding d1 p4_def by (rule answer_name_end[OF nok])
  have at: "data ! (p4 + i) = ?F ! i" if "i < 10" for i
    unfolding d2 p4_def using that fx(1) by (simp add: nth_append)
  have a0: "data ! p4 = ?F ! 0" using at[of 0] by simp
  have a1: "data ! (p4 + 1) = ?F ! 1" by (rule at) simp
  have a8: "data ! (p4 + 8) = ?F ! 8" by (rule at) simp
  have a9: "data ! (p4 + 9) = ?F ! 9" by (rule at) simp
  have len: "length data = p4 + 10 + length ?D + length rest"
    unfolding d1 p4_def using fx(1) by simp
  have l12: "\<not> length pre + 12 > length data" using long by (simp add: data_def)
  have l10: "\<not> p4 + 10 > length data" using len by simp
  have dr: "drop (p4 + 10) data = ?D @ rest"
    unfolding d3 p4_def using fx(1) by simp
  have r4: "(of_nat (length ?D) :: u16) = 4 \<longleftrightarrow> length ?D = 4" by (rule rdlen_is_4[OF dl])
  have "dns_first_answer q data (length pre)
       = (if rr_type r = 1 \<and> length ?D = 4 \<and> p4 + 10 + 4 \<le> length data
          then q\<lparr>dq_result_ip := take 4 (?D @ rest), dq_state := DNS_STATE_DONE\<rparr>
          else q\<lparr>dq_state := DNS_STATE_ERROR\<rparr>)"
    unfolding dns_first_answer_def Let_def e[unfolded Let_def]
    by (simp only: l12 l10 if_False a0 a1 a8 a9 fx r4 dr)
  also have "\<dots> = (if rr_type r = 1 \<and> length ?D = 4
          then q\<lparr>dq_result_ip := ?D, dq_state := DNS_STATE_DONE\<rparr>
          else q\<lparr>dq_state := DNS_STATE_ERROR\<rparr>)"
    using len by auto
  finally show ?thesis unfolding data_def .
qed


lemma dns_other_id:
  assumes "be16 (data ! 0) (data ! 1) \<noteq> dq_query_id q"
  shows "handle_dns_response (Some q) data = Some q"
  using assms by (simp add: handle_dns_response_def Let_def)

lemma dns_response_handled:
  assumes pend: "dq_state q = DNS_STATE_PENDING"
    and qn: "list_all label_ok qname"
    and ok: "rr_ok r"
    and resp: "flags AND 0x8000 \<noteq> 0"
    and cnt: "length (r # rs) < 65536"
    and long: "12 \<le> length (concat (map enc_rr (r # rs)))"
  shows "handle_dns_response (Some q) (dns_response (dq_query_id q) flags qname (r # rs))
       = (if flags AND 0x000F \<noteq> 0 then Some (q\<lparr>dq_state := DNS_STATE_ERROR\<rparr>)
          else if rr_type r = 1 \<and> length (rr_rdata r) = 4
          then Some (q\<lparr>dq_result_ip := rr_rdata r, dq_state := DNS_STATE_DONE\<rparr>)
          else Some (q\<lparr>dq_state := DNS_STATE_ERROR\<rparr>))"
proof -
  define n where "n = length (r # rs)"
  define H where "H = enc16 (dq_query_id q) @ enc16 flags @ enc16 1
                       @ enc16 (of_nat n) @ enc16 0 @ enc16 0"
  define rest where "rest = concat (map enc_rr rs)"
  define pre where "pre = H @ enc_labels qname @ 0 # enc16 1 @ enc16 1"
  define data where "data = dns_response (dq_query_id q) flags qname (r # rs)"
  have hl: "length H = 12" by (simp add: H_def length_enc16)
  have d1: "data = H @ enc_labels qname @ 0 # (enc16 1 @ enc16 1 @ enc_rr r @ rest)"
    by (simp add: data_def dns_response_def H_def rest_def n_def)
  have d2: "data = pre @ enc_rr r @ rest"
    by (simp add: d1 pre_def)
  have h: "data ! i = H ! i" if "i < 12" for i
    unfolding d1 using that hl by (simp add: nth_append)
  have f0: "be16 (data ! 0) (data ! 1) = dq_query_id q"
    by (simp add: h H_def enc16_def be16_enc16)
  have f2: "be16 (data ! 2) (data ! 3) = flags"
    by (simp add: h H_def enc16_def be16_enc16)
  have f6: "be16 (data ! 6) (data ! 7) = of_nat n"
    by (simp add: h H_def enc16_def be16_enc16)
  have n: "n < 65536" "n \<noteq> 0" using cnt by (simp_all add: n_def)
  have "unat (of_nat n :: u16) = n"
    using n(1) by (simp add: unat_of_nat)
  then have an: "(of_nat n :: u16) \<noteq> 0"
    using n(2) by (metis unat_0)
  have len: "\<not> length data < 12" unfolding d1 using hl by simp
  have s: "skip_qname data 12 = 12 + length (enc_labels qname)"
    unfolding d1 using skip_qname_labels[OF qn, of H] hl by simp
  have z: "data ! (12 + length (enc_labels qname)) = 0"
    unfolding d1 using hl by (simp add: nth_append)
  have lt: "12 + length (enc_labels qname) < length data"
    unfolding d1 using hl by simp
  have p3: "length pre = 17 + length (enc_labels qname)"
    by (simp add: pre_def hl length_enc16)
  have long': "12 \<le> length (enc_rr r @ rest)" using long by (simp add: rest_def)
  have fa: "dns_first_answer q data (length pre)
       = (if rr_type r = 1 \<and> length (rr_rdata r) = 4
          then q\<lparr>dq_result_ip := rr_rdata r, dq_state := DNS_STATE_DONE\<rparr>
          else q\<lparr>dq_state := DNS_STATE_ERROR\<rparr>)"
    unfolding d2 by (rule dns_first_answer_rr[OF ok long'])
  have "handle_dns_response (Some q) data
       = (if flags AND 0x000F \<noteq> 0 then Some (q\<lparr>dq_state := DNS_STATE_ERROR\<rparr>)
          else Some (dns_first_answer q data (length pre)))"
    unfolding handle_dns_response_def Let_def f0 f2 f6 s
    using len pend resp an z lt by (simp add: p3)
  then have "handle_dns_response (Some q) data
       = (if flags AND 0x000F \<noteq> 0 then Some (q\<lparr>dq_state := DNS_STATE_ERROR\<rparr>)
          else if rr_type r = 1 \<and> length (rr_rdata r) = 4
          then Some (q\<lparr>dq_result_ip := rr_rdata r, dq_state := DNS_STATE_DONE\<rparr>)
          else Some (q\<lparr>dq_state := DNS_STATE_ERROR\<rparr>))"
    unfolding fa by simp
  then show ?thesis unfolding data_def .
qed


lemma dns_error_arms:
  assumes "dq_state q = DNS_STATE_PENDING" and "12 \<le> length d"
    and "be16 (d ! 0) (d ! 1) = dq_query_id q"
    and "be16 (d ! 2) (d ! 3) AND 0x8000 \<noteq> 0"
    and "be16 (d ! 2) (d ! 3) AND 0x000F \<noteq> 0 \<or> be16 (d ! 6) (d ! 7) = 0"
  shows "handle_dns_response (Some q) d = Some (q\<lparr>dq_state := DNS_STATE_ERROR\<rparr>)"
  using assms by (auto simp: handle_dns_response_def Let_def)

text \<open>
  C6 (DNS response resolution), amended. While the active query is pending:

  \<^item> a datagram of at least 12 bytes with the query's id and the QR bit set makes the
    query \<open>error\<close> when its RCODE is not 0 or its ANCOUNT is 0;

  \<^item> a response with the query's id and the QR bit set that is laid out as
    \<open>dns_response\<close> builds it (the header, one question with an uncompressed name of
    labels of 1 to 63 bytes, then at least one answer record; the first record has an owner
    name that is a two-byte compression pointer or uncompressed labels of 1 to 63 bytes, a
    4-byte TTL and its RDATA in full; the answer section is at least 12 bytes long) is
    settled by its \<^emph>\<open>first\<close> answer record alone: with RCODE 0, type A and RDLENGTH 4 in
    that record the query becomes \<open>done\<close> with the record's four address bytes; with
    another RCODE, type or RDLENGTH it becomes \<open>error\<close>, whatever the later records hold;

  \<^item> a datagram with another id leaves the query as it is.

  Nothing is said of a response outside this layout (a first owner name that mixes labels
  and a pointer, a record cut short): the code may leave the query pending there.
\<close>

theorem dns_response_resolution:
  assumes pend: "dq_state q = DNS_STATE_PENDING"
    and qn: "list_all label_ok qname"
    and ok: "rr_ok r"
    and resp: "flags AND 0x8000 \<noteq> 0"
    and cnt: "length (r # rs) < 65536"
    and long: "12 \<le> length (concat (map enc_rr (r # rs)))"
    and pkt: "pkt = dns_response (dq_query_id q) flags qname (r # rs)"
  shows "(flags AND 0x000F = 0 \<and> rr_type r = 1 \<and> length (rr_rdata r) = 4 \<longrightarrow>
            handle_dns_response (Some q) pkt
              = Some (q\<lparr>dq_result_ip := rr_rdata r, dq_state := DNS_STATE_DONE\<rparr>))
       \<and> (\<not> (flags AND 0x000F = 0 \<and> rr_type r = 1 \<and> length (rr_rdata r) = 4) \<longrightarrow>
            handle_dns_response (Some q) pkt = Some (q\<lparr>dq_state := DNS_STATE_ERROR\<rparr>))
       \<and> (\<forall>d. 12 \<le> length d \<and> be16 (d ! 0) (d ! 1) = dq_query_id q \<and>
              be16 (d ! 2) (d ! 3) AND 0x8000 \<noteq> 0 \<and>
              (be16 (d ! 2) (d ! 3) AND 0x000F \<noteq> 0 \<or> be16 (d ! 6) (d ! 7) = 0) \<longrightarrow>
            handle_dns_response (Some q) d = Some (q\<lparr>dq_state := DNS_STATE_ERROR\<rparr>))
       \<and> (\<forall>d. be16 (d ! 0) (d ! 1) \<noteq> dq_query_id q \<longrightarrow>
            handle_dns_response (Some q) d = Some q)"
  using dns_response_handled[OF pend qn ok resp cnt long] dns_other_id[of _ q]
    dns_error_arms[OF pend]
  unfolding pkt by auto

definition query7 :: dns_query where
  "query7 = \<lparr>dq_state = DNS_STATE_PENDING, dq_result_ip = [0, 0, 0, 0], dq_query_id = 7,
     dq_timeout_tick = 30000, dq_retry_tick = 1000, dq_hostname = ''a.io''\<rparr>"

definition qname_a_io :: "u8 list list" where
  "qname_a_io = [[97], [105, 111]]"

definition rr_a :: dns_rr where
  "rr_a = \<lparr>rr_owner = NamePtr 0xC0 0x0C, rr_type = 1, rr_class = 1, rr_ttl = [0, 0, 0, 60],
     rr_rdata = [93, 184, 216, 34]\<rparr>"

definition rr_cname :: dns_rr where
  "rr_cname = \<lparr>rr_owner = NamePtr 0xC0 0x0C, rr_type = 5, rr_class = 1, rr_ttl = [0, 0, 0, 60],
     rr_rdata = [1, 98, 0xC0, 0x0E]\<rparr>"

lemma example_ok:
  "dq_state query7 = DNS_STATE_PENDING" "list_all label_ok qname_a_io"
  "rr_ok rr_a" "rr_ok rr_cname" "(0x8180 :: u16) AND 0x8000 \<noteq> 0"
  "(0x8180 :: u16) AND 0x000F = 0" "dq_query_id query7 = 7"
  by (simp_all add: query7_def qname_a_io_def label_ok_def rr_ok_def rr_a_def rr_cname_def)

lemma example_long:
  "12 \<le> length (concat (map enc_rr [rr_a]))"
  "12 \<le> length (concat (map enc_rr [rr_cname, rr_a]))"
  by (simp_all add: enc_rr_def enc16_def rr_a_def rr_cname_def)

definition nxdomain :: "u8 list" where
  "nxdomain = [0, 7, 129, 131, 0, 1, 0, 0, 0, 0, 0, 0, 1, 97, 2, 105, 111, 0, 0, 1, 0, 1]"

definition nodata :: "u8 list" where
  "nodata = [0, 7, 129, 128, 0, 1, 0, 0, 0, 0, 0, 0, 1, 97, 2, 105, 111, 0, 0, 1, 0, 1]"

theorem dns_response_resolution_witness:
  "dq_state query7 = DNS_STATE_PENDING \<and> list_all label_ok qname_a_io \<and> rr_ok rr_a
   \<and> (0x8180 :: u16) AND 0x8000 \<noteq> 0 \<and> (0x8180 :: u16) AND 0x000F = 0
   \<and> rr_type rr_a = 1 \<and> length (rr_rdata rr_a) = 4
   \<and> dns_response 7 0x8180 qname_a_io [rr_a]
        = [0, 7, 129, 128, 0, 1, 0, 1, 0, 0, 0, 0, 1, 97, 2, 105, 111, 0, 0, 1, 0, 1,
           192, 12, 0, 1, 0, 1, 0, 0, 0, 60, 0, 4, 93, 184, 216, 34]
   \<and> handle_dns_response (Some query7) (dns_response 7 0x8180 qname_a_io [rr_a])
        = Some (query7\<lparr>dq_result_ip := [93, 184, 216, 34], dq_state := DNS_STATE_DONE\<rparr>)
   \<and> handle_dns_response (Some query7) nxdomain = Some (query7\<lparr>dq_state := DNS_STATE_ERROR\<rparr>)
   \<and> handle_dns_response (Some query7) nodata = Some (query7\<lparr>dq_state := DNS_STATE_ERROR\<rparr>)
   \<and> dns_response 8 0x8180 qname_a_io [rr_a]
        = [0, 8, 129, 128, 0, 1, 0, 1, 0, 0, 0, 0, 1, 97, 2, 105, 111, 0, 0, 1, 0, 1,
           192, 12, 0, 1, 0, 1, 0, 0, 0, 60, 0, 4, 93, 184, 216, 34]
   \<and> handle_dns_response (Some query7) (dns_response 8 0x8180 qname_a_io [rr_a]) = Some query7"
proof -
  have c: "length [rr_a] < 65536" by simp
  have b: "dns_response 7 0x8180 qname_a_io [rr_a]
        = [0, 7, 129, 128, 0, 1, 0, 1, 0, 0, 0, 0, 1, 97, 2, 105, 111, 0, 0, 1, 0, 1,
           192, 12, 0, 1, 0, 1, 0, 0, 0, 60, 0, 4, 93, 184, 216, 34]"
    by (simp add: dns_response_def enc16_def enc_labels_def qname_a_io_def enc_rr_def rr_a_def)
  have b8: "dns_response 8 0x8180 qname_a_io [rr_a]
        = [0, 8, 129, 128, 0, 1, 0, 1, 0, 0, 0, 0, 1, 97, 2, 105, 111, 0, 0, 1, 0, 1,
           192, 12, 0, 1, 0, 1, 0, 0, 0, 60, 0, 4, 93, 184, 216, 34]"
    by (simp add: dns_response_def enc16_def enc_labels_def qname_a_io_def enc_rr_def rr_a_def)
  have t: "rr_type rr_a = 1" "length (rr_rdata rr_a) = 4" "rr_rdata rr_a = [93, 184, 216, 34]"
    by (simp_all add: rr_a_def)
  note w = dns_response_resolution[OF example_ok(1) example_ok(2) example_ok(3) example_ok(5)
      c example_long(1) refl, unfolded example_ok(7)]
  have 1: "handle_dns_response (Some query7) (dns_response 7 0x8180 qname_a_io [rr_a])
        = Some (query7\<lparr>dq_result_ip := [93, 184, 216, 34], dq_state := DNS_STATE_DONE\<rparr>)"
    using w example_ok(6) t by simp
  have e: "\<And>d. 12 \<le> length d \<and> be16 (d ! 0) (d ! 1) = 7 \<and>
              be16 (d ! 2) (d ! 3) AND 0x8000 \<noteq> 0 \<and>
              (be16 (d ! 2) (d ! 3) AND 0x000F \<noteq> 0 \<or> be16 (d ! 6) (d ! 7) = 0) \<Longrightarrow>
            handle_dns_response (Some query7) d = Some (query7\<lparr>dq_state := DNS_STATE_ERROR\<rparr>)"
    using w by blast
  have 2: "handle_dns_response (Some query7) nxdomain = Some (query7\<lparr>dq_state := DNS_STATE_ERROR\<rparr>)"
    by (rule e) (simp add: nxdomain_def be16_def)
  have 3: "handle_dns_response (Some query7) nodata = Some (query7\<lparr>dq_state := DNS_STATE_ERROR\<rparr>)"
    by (rule e) (simp add: nodata_def be16_def)
  have o: "\<And>d. be16 (d ! 0) (d ! 1) \<noteq> 7 \<Longrightarrow> handle_dns_response (Some query7) d = Some query7"
    using w by blast
  have 4: "handle_dns_response (Some query7) (dns_response 8 0x8180 qname_a_io [rr_a]) = Some query7"
    by (rule o) (simp add: b8 be16_def)
  show ?thesis using 1 2 3 4 example_ok t b b8 by simp
qed

text \<open>
  C6 as stated fails on a response whose first answer is not the address record:
  with a CNAME record first and an A record (RDLENGTH 4) second, id matching and RCODE
  0, the query ends in \<open>error\<close>, not \<open>done\<close>.
\<close>

theorem dns_cname_first_is_error:
  "dq_state query7 = DNS_STATE_PENDING
   \<and> dns_response 7 0x8180 qname_a_io [rr_cname, rr_a]
        = [0, 7, 129, 128, 0, 1, 0, 2, 0, 0, 0, 0, 1, 97, 2, 105, 111, 0, 0, 1, 0, 1,
           192, 12, 0, 5, 0, 1, 0, 0, 0, 60, 0, 4, 1, 98, 192, 14,
           192, 12, 0, 1, 0, 1, 0, 0, 0, 60, 0, 4, 93, 184, 216, 34]
   \<and> (0x8180 :: u16) AND 0x000F = 0
   \<and> rr_type rr_a = 1 \<and> length (rr_rdata rr_a) = 4
   \<and> handle_dns_response (Some query7) (dns_response 7 0x8180 qname_a_io [rr_cname, rr_a])
        = Some (query7\<lparr>dq_state := DNS_STATE_ERROR\<rparr>)"
proof -
  have c: "length [rr_cname, rr_a] < 65536" by simp
  have b: "dns_response 7 0x8180 qname_a_io [rr_cname, rr_a]
        = [0, 7, 129, 128, 0, 1, 0, 2, 0, 0, 0, 0, 1, 97, 2, 105, 111, 0, 0, 1, 0, 1,
           192, 12, 0, 5, 0, 1, 0, 0, 0, 60, 0, 4, 1, 98, 192, 14,
           192, 12, 0, 1, 0, 1, 0, 0, 0, 60, 0, 4, 93, 184, 216, 34]"
    by (simp add: dns_response_def enc16_def enc_labels_def qname_a_io_def enc_rr_def rr_a_def
        rr_cname_def)
  have t: "rr_type rr_a = 1" "length (rr_rdata rr_a) = 4" "rr_type rr_cname = 5"
    by (simp_all add: rr_a_def rr_cname_def)
  note h = dns_response_handled[OF example_ok(1) example_ok(2) example_ok(4) example_ok(5)
      c example_long(2), unfolded example_ok(7)]
  have "handle_dns_response (Some query7) (dns_response 7 0x8180 qname_a_io [rr_cname, rr_a])
        = Some (query7\<lparr>dq_state := DNS_STATE_ERROR\<rparr>)"
    unfolding h using t example_ok(6) by simp
  then show ?thesis using example_ok t b by simp
qed

section \<open>Memory allocator (kernel/memory.c)\<close>

text \<open>
  The target is ARM64 (types.h under \<^verbatim>\<open>__aarch64__\<close>): \<^verbatim>\<open>size_t\<close> and pointers are 64 bits
  wide. A pointer is the address it holds and \<^verbatim>\<open>NULL\<close> is 0. The struct
  \<^verbatim>\<open>block_header_t\<close> has the fields size (8 bytes), next (8 bytes), is_free (4 bytes)
  and magic (4 bytes), so \<^verbatim>\<open>sizeof(block_header_t)\<close> is 24.

  The store gives the header that is read at an address; it is written only by the
  allocator (payload bytes are not part of the model). The linker symbols
  \<^verbatim>\<open>__heap_start\<close> and \<^verbatim>\<open>__heap_end\<close> are two constant fields of the state.
\<close>

record block_header =
  bh_size :: u64
  bh_next :: u64
  bh_is_free :: u32
  bh_magic :: u32

record heap =
  store :: "u64 \<Rightarrow> block_header"
  heap_start :: u64
  heap_end :: u64
  heap_head :: u64
  heap_initialized :: bool
  total_allocated :: u64
  total_freed :: u64

definition BLOCK_MAGIC :: u32 where
  "BLOCK_MAGIC = 0xDEADBEEF"

definition HEADER_SIZE :: u64 where
  "HEADER_SIZE = 24"

definition MIN_BLOCK_SIZE :: u64 where
  "MIN_BLOCK_SIZE = HEADER_SIZE + 16"

definition ALIGN_SIZE :: u64 where
  "ALIGN_SIZE = 16"

definition ALIGN :: "u64 \<Rightarrow> u64" where
  "ALIGN x = (x + (ALIGN_SIZE - 1)) AND NOT (ALIGN_SIZE - 1)"

text \<open>Writes of one field of the header at an address.\<close>

definition set_size :: "heap \<Rightarrow> u64 \<Rightarrow> u64 \<Rightarrow> heap" where
  "set_size h a v = h\<lparr>store := (store h)(a := (store h a)\<lparr>bh_size := v\<rparr>)\<rparr>"

definition set_next :: "heap \<Rightarrow> u64 \<Rightarrow> u64 \<Rightarrow> heap" where
  "set_next h a v = h\<lparr>store := (store h)(a := (store h a)\<lparr>bh_next := v\<rparr>)\<rparr>"

definition set_is_free :: "heap \<Rightarrow> u64 \<Rightarrow> u32 \<Rightarrow> heap" where
  "set_is_free h a v = h\<lparr>store := (store h)(a := (store h a)\<lparr>bh_is_free := v\<rparr>)\<rparr>"

definition set_magic :: "heap \<Rightarrow> u64 \<Rightarrow> u32 \<Rightarrow> heap" where
  "set_magic h a v = h\<lparr>store := (store h)(a := (store h a)\<lparr>bh_magic := v\<rparr>)\<rparr>"

definition heap_init :: "heap \<Rightarrow> heap" where
  "heap_init h =
    (if heap_initialized h then h
     else
       let heap_size = heap_end h - heap_start h;
           aligned_start = ALIGN (heap_start h);
           heap_size = heap_size - (aligned_start - heap_start h);
           heap_size = heap_size AND NOT (ALIGN_SIZE - 1);
           h = h\<lparr>heap_head := aligned_start\<rparr>;
           h = set_size h (heap_head h) heap_size;
           h = set_next h (heap_head h) 0;
           h = set_is_free h (heap_head h) 1;
           h = set_magic h (heap_head h) BLOCK_MAGIC
       in h\<lparr>heap_initialized := True\<rparr>)"

text \<open>The body of malloc's loop once a suitable block is found: split, mark, return.\<close>

definition malloc_take :: "heap \<Rightarrow> u64 \<Rightarrow> u64 \<Rightarrow> heap \<times> u64" where
  "malloc_take h total_size current =
    (let h =
       (if total_size + MIN_BLOCK_SIZE \<le> bh_size (store h current) then
          let new_block = current + total_size;
              h = set_size h new_block (bh_size (store h current) - total_size);
              h = set_next h new_block (bh_next (store h current));
              h = set_is_free h new_block 1;
              h = set_magic h new_block BLOCK_MAGIC;
              h = set_size h current total_size
          in set_next h current new_block
        else h);
         h = set_is_free h current 0;
         h = h\<lparr>total_allocated := total_allocated h + bh_size (store h current)\<rparr>
     in (h, current + HEADER_SIZE))"

partial_function (option) malloc_loop :: "heap \<Rightarrow> u64 \<Rightarrow> u64 \<Rightarrow> (heap \<times> u64) option" where
  "malloc_loop h total_size current =
    (if current = 0 then Some (h, 0)
     else if bh_magic (store h current) \<noteq> BLOCK_MAGIC then Some (h, 0)
     else if bh_is_free (store h current) \<noteq> 0 \<and> total_size \<le> bh_size (store h current)
       then Some (malloc_take h total_size current)
     else malloc_loop h total_size (bh_next (store h current)))"

definition malloc :: "heap \<Rightarrow> u64 \<Rightarrow> (heap \<times> u64) option" where
  "malloc h sz =
    (let h = (if \<not> heap_initialized h then heap_init h else h) in
     if sz = 0 then Some (h, 0)
     else
       let total_size = ALIGN (HEADER_SIZE + sz);
           total_size = (if total_size < MIN_BLOCK_SIZE then MIN_BLOCK_SIZE else total_size)
       in malloc_loop h total_size (heap_head h))"

text \<open>The two merges of free's walk from the head.\<close>

definition merge_prev :: "heap \<Rightarrow> u64 \<Rightarrow> u64 \<Rightarrow> heap" where
  "merge_prev h block current =
    (let h = set_size h current (bh_size (store h current) + bh_size (store h block))
     in set_next h current (bh_next (store h block)))"

definition merge_three :: "heap \<Rightarrow> u64 \<Rightarrow> u64 \<Rightarrow> heap" where
  "merge_three h block current =
    (let n = bh_next (store h current) in
     if n \<noteq> 0 \<and> bh_is_free (store h n) \<noteq> 0 \<and> bh_next (store h n) \<noteq> 0 \<and>
        bh_next (store h n) = block \<and> bh_is_free (store h block) \<noteq> 0
     then
       let h = set_size h n (bh_size (store h n) + bh_size (store h block))
       in set_next h n (bh_next (store h block))
     else h)"

partial_function (option) free_loop :: "heap \<Rightarrow> u64 \<Rightarrow> u64 \<Rightarrow> heap option" where
  "free_loop h block current =
    (if current \<noteq> 0 \<and> bh_next (store h current) \<noteq> 0 then
       if bh_is_free (store h current) \<noteq> 0 \<and> bh_next (store h current) = block
       then Some (merge_prev h block current)
       else free_loop (merge_three h block current) block
              (bh_next (store (merge_three h block current) current))
     else Some h)"

definition free :: "heap \<Rightarrow> u64 \<Rightarrow> heap option" where
  "free h ptr =
    (if ptr = 0 then Some h
     else
       let block = ptr - HEADER_SIZE in
       if bh_magic (store h block) \<noteq> BLOCK_MAGIC then Some h
       else if bh_is_free (store h block) \<noteq> 0 then Some h
       else
         let h = set_is_free h block 1;
             h = h\<lparr>total_freed := total_freed h + bh_size (store h block)\<rparr>;
             n = bh_next (store h block);
             h = (if n \<noteq> 0 \<and> bh_is_free (store h n) \<noteq> 0 then
                    let h = set_size h block (bh_size (store h block) + bh_size (store h n))
                    in set_next h block (bh_next (store h n))
                  else h)
         in free_loop h block (heap_head h))"

text \<open>A sequence of calls; the pointer malloc returns goes to the caller.\<close>

datatype heap_op = Malloc u64 | Free u64

fun run :: "heap_op list \<Rightarrow> heap \<Rightarrow> heap option" where
  "run [] h = Some h"
| "run (Malloc n # ops) h =
    (case malloc h n of None \<Rightarrow> None | Some (h', p) \<Rightarrow> run ops h')"
| "run (Free p # ops) h =
    (case free h p of None \<Rightarrow> None | Some h' \<Rightarrow> run ops h')"

definition boot_heap :: heap where
  "boot_heap = \<lparr>store = (\<lambda>a. \<lparr>bh_size = 0, bh_next = 0, bh_is_free = 0, bh_magic = 0\<rparr>),
     heap_start = 0x40100000, heap_end = 0x40200000, heap_head = 0,
     heap_initialized = False, total_allocated = 0, total_freed = 0\<rparr>"

declare malloc_loop.simps [code]

declare free_loop.simps [code]

text \<open>
  C4 (payload alignment). On a heap region that starts at the 16-byte boundary
  0x40100000, the first call \<^verbatim>\<open>malloc(100)\<close> returns 0x40100018: the block starts at the
  boundary and the payload 24 bytes (\<^const>\<open>HEADER_SIZE\<close>) behind it, which is 8 modulo 16.
\<close>

theorem malloc_payload_misaligned:
  "\<exists>h. malloc boot_heap 100 = Some (h, 0x40100018) \<and>
       heap_head h = 0x40100000 \<and> (0x40100018 :: u64) AND (ALIGN_SIZE - 1) = 8"
  by (simp add: malloc_def boot_heap_def heap_init_def malloc_loop.simps malloc_take_def Let_def
      ALIGN_def ALIGN_SIZE_def HEADER_SIZE_def MIN_BLOCK_SIZE_def BLOCK_MAGIC_def
      set_size_def set_next_def set_is_free_def set_magic_def)

text \<open>
  The block list of a store: the blocks met from \<^const>\<open>heap_head\<close> along the next
  pointers up to \<^verbatim>\<open>NULL\<close>, each with its address, its size and whether it is free.
\<close>

record blk =
  b_addr :: u64
  b_size :: u64
  b_free :: bool

fun lseg :: "(u64 \<Rightarrow> block_header) \<Rightarrow> u64 \<Rightarrow> blk list \<Rightarrow> u64 \<Rightarrow> bool" where
  "lseg m a [] z = (a = z)"
| "lseg m a (b # bs) z =
    (a = b_addr b \<and> a \<noteq> 0 \<and> bh_size (m a) = b_size b \<and> (bh_is_free (m a) \<noteq> 0) = b_free b \<and>
     bh_magic (m a) = BLOCK_MAGIC \<and> lseg m (bh_next (m a)) bs z)"

definition block_list :: "heap \<Rightarrow> blk list \<Rightarrow> bool" where
  "block_list h bs = lseg (store h) (heap_head h) bs 0"

definition adjacent :: "blk \<Rightarrow> blk \<Rightarrow> bool" where
  "adjacent b c = (0 < unat (b_size b) \<and> unat (b_addr b) + unat (b_size b) = unat (b_addr c))"

definition inside :: "nat \<Rightarrow> blk \<Rightarrow> bool" where
  "inside B b = (unat (b_addr b) + unat (b_size b) \<le> B)"

definition contiguous :: "nat \<Rightarrow> blk list \<Rightarrow> bool" where
  "contiguous B bs = (successively adjacent bs \<and> list_all (inside B) bs)"

definition both_free :: "blk \<Rightarrow> blk \<Rightarrow> bool" where
  "both_free b c = (b_free b \<and> b_free c)"

definition no_adjacent_free :: "blk list \<Rightarrow> bool" where
  "no_adjacent_free bs = successively (\<lambda>b c. \<not> both_free b c) bs"

definition below :: "blk \<Rightarrow> blk \<Rightarrow> bool" where
  "below b c = (unat (b_addr b) < unat (b_addr c))"

lemma lseg_frame:
  "(\<And>x. x \<in> b_addr ` set bs \<Longrightarrow> m' x = m x) \<Longrightarrow> lseg m' a bs z = lseg m a bs z"
  by (induction bs arbitrary: a) auto

lemma lseg_append:
  "lseg m a (xs @ ys) z = (\<exists>c. lseg m a xs c \<and> lseg m c ys z)"
  by (induction xs arbitrary: a) auto

lemma lseg_nonzero: "lseg m a bs z \<Longrightarrow> b \<in> set bs \<Longrightarrow> b_addr b \<noteq> 0"
  by (induction bs arbitrary: a) auto

lemma lseg_next_in:
  "lseg m a bs z \<Longrightarrow> b \<in> set bs \<Longrightarrow> bh_next (m (b_addr b)) \<in> insert z (b_addr ` set bs)"
proof (induction bs arbitrary: a)
  case Nil
  then show ?case by simp
next
  case (Cons c bs)
  show ?case
  proof (cases "b = c")
    case True
    then show ?thesis using Cons.prems by (cases bs) auto
  next
    case False
    then show ?thesis using Cons by auto
  qed
qed

lemma adjacent_below: "successively adjacent bs \<Longrightarrow> sorted_wrt below bs"
proof -
  assume "successively adjacent bs"
  then have "successively below bs"
    by (rule successively_mono) (simp add: adjacent_def below_def)
  moreover have "transp below"
    by (auto simp: transp_def below_def)
  ultimately show ?thesis
    by (simp add: successively_conv_sorted_wrt)
qed

lemma contiguous_distinct: "contiguous B bs \<Longrightarrow> distinct (map b_addr bs)"
proof -
  assume "contiguous B bs"
  then have "sorted_wrt below bs"
    by (simp add: contiguous_def adjacent_below)
  then show ?thesis
    by (induction bs) (auto simp: below_def)
qed

lemma contiguous_split:
  assumes "contiguous B (pre @ b # post)"
  shows "\<forall>p \<in> set pre. b_addr p \<noteq> b_addr b" and "\<forall>p \<in> set post. b_addr p \<noteq> b_addr b"
proof -
  have d: "distinct (map b_addr (pre @ b # post))"
    using assms by (rule contiguous_distinct)
  show "\<forall>p \<in> set pre. b_addr p \<noteq> b_addr b"
  proof
    fix p assume "p \<in> set pre"
    then have "b_addr p \<in> b_addr ` set pre" by (rule imageI)
    then show "b_addr p \<noteq> b_addr b" using d by auto
  qed
  show "\<forall>p \<in> set post. b_addr p \<noteq> b_addr b"
  proof
    fix p assume "p \<in> set post"
    then have "b_addr p \<in> b_addr ` set post" by (rule imageI)
    then show "b_addr p \<noteq> b_addr b" using d by auto
  qed
qed

lemma unat_min_block: "unat MIN_BLOCK_SIZE = 40"
  by (simp add: MIN_BLOCK_SIZE_def HEADER_SIZE_def)

lemma unat_plus_min:
  fixes t :: u64
  assumes "unat t + 40 < 2 ^ 64"
  shows "unat (t + MIN_BLOCK_SIZE) = unat t + 40"
proof -
  have "unat t + unat MIN_BLOCK_SIZE < 2 ^ LENGTH(64)"
    using assms by (simp add: unat_min_block)
  then have "unat (t + MIN_BLOCK_SIZE) = unat t + unat MIN_BLOCK_SIZE"
    by (simp only: unat_add_lem)
  then show ?thesis by (simp add: unat_min_block)
qed

lemma unat_plus_small:
  fixes x t :: u64
  assumes "unat x + unat t < 2 ^ 64"
  shows "unat (x + t) = unat x + unat t"
proof -
  have "unat x + unat t < 2 ^ LENGTH(64)"
    using assms by simp
  then show ?thesis by (simp only: unat_add_lem)
qed

lemma take_whole:
  assumes l: "lseg (store h) (heap_head h) (pre @ b # post) 0"
    and c: "contiguous B (pre @ b # post)"
    and n: "no_adjacent_free (pre @ b # post)"
    and s: "\<not> ts + MIN_BLOCK_SIZE \<le> b_size b"
  shows "\<exists>h' p. malloc_take h ts (b_addr b) = (h', p) \<and>
           heap_head h' = heap_head h \<and> heap_end h' = heap_end h \<and>
           heap_initialized h' = heap_initialized h \<and>
           lseg (store h') (heap_head h') (pre @ b\<lparr>b_free := False\<rparr> # post) 0 \<and>
           contiguous B (pre @ b\<lparr>b_free := False\<rparr> # post) \<and>
           no_adjacent_free (pre @ b\<lparr>b_free := False\<rparr> # post)"
proof -
  define m' where "m' = (store h)(b_addr b := (store h (b_addr b))\<lparr>bh_is_free := 0\<rparr>)"
  from l have bs: "bh_size (store h (b_addr b)) = b_size b"
    by (auto simp: lseg_append)
  have t: "malloc_take h ts (b_addr b) =
      (h\<lparr>store := m', total_allocated := total_allocated h + b_size b\<rparr>, b_addr b + HEADER_SIZE)"
    using s bs by (simp add: malloc_take_def set_is_free_def m'_def Let_def)
  note d = contiguous_split [OF c]
  have f1: "lseg m' a pre z = lseg (store h) a pre z" for a z
    by (rule lseg_frame) (use d in \<open>auto simp: m'_def\<close>)
  have f2: "lseg m' a post z = lseg (store h) a post z" for a z
    by (rule lseg_frame) (use d in \<open>auto simp: m'_def\<close>)
  have l': "lseg m' (heap_head h) (pre @ b\<lparr>b_free := False\<rparr> # post) 0"
    using l by (auto simp: lseg_append f1 f2) (auto simp: m'_def)
  have c': "contiguous B (pre @ b\<lparr>b_free := False\<rparr> # post)"
    using c by (auto simp: contiguous_def successively_append_iff successively_Cons
        adjacent_def inside_def)
  have n': "no_adjacent_free (pre @ b\<lparr>b_free := False\<rparr> # post)"
    using n by (auto simp: no_adjacent_free_def successively_append_iff successively_Cons
        both_free_def)
  show ?thesis using t l' c' n' by simp
qed

lemma take_split:
  assumes l: "lseg (store h) (heap_head h) (pre @ b # post) 0"
    and c: "contiguous B (pre @ b # post)"
    and n: "no_adjacent_free (pre @ b # post)"
    and f: "b_free b"
    and fit: "ts \<le> b_size b"
    and s: "ts + MIN_BLOCK_SIZE \<le> b_size b"
    and t40: "40 \<le> unat ts"
    and B: "B + 40 < 2 ^ 64"
  shows "\<exists>h' p bs'. malloc_take h ts (b_addr b) = (h', p) \<and>
           heap_head h' = heap_head h \<and> heap_end h' = heap_end h \<and>
           heap_initialized h' = heap_initialized h \<and>
           lseg (store h') (heap_head h') bs' 0 \<and> contiguous B bs' \<and> no_adjacent_free bs'"
proof -
  define x where "x = b_addr b"
  define nb where "nb = x + ts"
  define c1 where "c1 = b\<lparr>b_size := ts, b_free := False\<rparr>"
  define c2 where "c2 = \<lparr>b_addr = nb, b_size = b_size b - ts, b_free = True\<rparr>"
  define nx where "nx = bh_next (store h x)"
  from l obtain bs: "bh_size (store h x) = b_size b" and x0: "x \<noteq> 0"
    and mg: "bh_magic (store h x) = BLOCK_MAGIC"
    and lp: "lseg (store h) (heap_head h) pre x"
    and lq: "lseg (store h) nx post 0"
    by (auto simp: lseg_append x_def nx_def)
  from c have ins: "unat x + unat (b_size b) \<le> B"
    by (simp add: contiguous_def inside_def x_def)
  text \<open>no wrap-around in the sizes\<close>
  have fit': "unat ts \<le> unat (b_size b)"
    using fit by (simp add: word_le_nat_alt)
  have "unat ts + 40 < 2 ^ 64"
    using fit' ins B by simp
  then have "unat (ts + MIN_BLOCK_SIZE) = unat ts + 40"
    by (rule unat_plus_min)
  then have le: "unat ts + 40 \<le> unat (b_size b)"
    using s by (simp add: word_le_nat_alt)
  have unb: "unat nb = unat x + unat ts"
    unfolding nb_def by (rule unat_plus_small) (use fit' ins B in simp)
  have usz: "unat (b_size b - ts) = unat (b_size b) - unat ts"
    using fit by (simp add: unat_sub)
  have nb0: "nb \<noteq> 0"
    using unb t40 by (auto simp: unat_eq_0 [symmetric] simp del: unat_eq_0)
  have nbx: "nb \<noteq> x"
    using unb t40 by auto
  text \<open>the new block lies strictly inside the old one, so it is no block of the list\<close>
  have srt: "sorted_wrt below (pre @ b # post)"
    using c by (simp add: contiguous_def adjacent_below)
  have npre: "nb \<notin> b_addr ` set pre"
  proof
    assume "nb \<in> b_addr ` set pre"
    then obtain p where "p \<in> set pre" "b_addr p = nb" by auto
    then have "unat nb < unat x"
      using srt by (auto simp: sorted_wrt_append below_def x_def)
    then show False using unb by simp
  qed
  have sizes: "\<forall>q \<in> set post. unat x + unat (b_size b) \<le> unat (b_addr q)"
  proof (cases post)
    case Nil
    then show ?thesis by simp
  next
    case (Cons q qs)
    have "adjacent b q"
      using c Cons by (simp add: contiguous_def successively_append_iff successively_Cons)
    then have a: "unat x + unat (b_size b) = unat (b_addr q)"
      by (simp add: adjacent_def x_def)
    have "sorted_wrt below (q # qs)"
      using srt Cons by (simp add: sorted_wrt_append)
    then have "\<forall>r \<in> set qs. unat (b_addr q) < unat (b_addr r)"
      by (simp add: below_def)
    then show ?thesis using a Cons by auto
  qed
  have npost: "nb \<notin> b_addr ` set post"
  proof
    assume "nb \<in> b_addr ` set post"
    then obtain q where "q \<in> set post" "b_addr q = nb" by auto
    then have "unat x + unat (b_size b) \<le> unat nb"
      using sizes by auto
    then show False using unb le by simp
  qed
  note d = contiguous_split [OF c, folded x_def]
  from npre npost
  have d': "\<forall>p \<in> set pre. b_addr p \<noteq> nb" "\<forall>p \<in> set post. b_addr p \<noteq> nb"
    by auto
  define m' where "m' = (store h)
      (nb := (store h nb)\<lparr>bh_size := b_size b - ts, bh_next := nx, bh_is_free := 1,
                bh_magic := BLOCK_MAGIC\<rparr>,
       x := (store h x)\<lparr>bh_size := ts, bh_next := nb, bh_is_free := 0\<rparr>)"
  have t: "malloc_take h ts x =
      (h\<lparr>store := m', total_allocated := total_allocated h + ts\<rparr>, x + HEADER_SIZE)"
    using s bs nbx
    by (simp add: malloc_take_def set_is_free_def set_size_def set_next_def set_magic_def
        m'_def Let_def nb_def [symmetric] nx_def)
  have f1: "lseg m' a pre z = lseg (store h) a pre z" for a z
    by (rule lseg_frame) (use d d' in \<open>auto simp: m'_def\<close>)
  have f2: "lseg m' a post z = lseg (store h) a post z" for a z
    by (rule lseg_frame) (use d d' in \<open>auto simp: m'_def\<close>)
  have mx: "m' x = (store h x)\<lparr>bh_size := ts, bh_next := nb, bh_is_free := 0\<rparr>"
    by (simp add: m'_def)
  have mn: "m' nb = (store h nb)\<lparr>bh_size := b_size b - ts, bh_next := nx, bh_is_free := 1,
      bh_magic := BLOCK_MAGIC\<rparr>"
    using nbx by (simp add: m'_def)
  have l': "lseg m' (heap_head h) (pre @ c1 # c2 # post) 0"
    using lp lq x0 nb0 mg
    by (simp add: lseg_append f1 f2 c1_def c2_def mx mn x_def [symmetric])
  have c': "contiguous B (pre @ c1 # c2 # post)"
    using c unb usz le ins t40
    by (cases post)
      (auto simp: contiguous_def successively_append_iff successively_Cons
        adjacent_def inside_def c1_def c2_def x_def [symmetric])
  have n': "no_adjacent_free (pre @ c1 # c2 # post)"
    using n f
    by (cases post)
      (auto simp: no_adjacent_free_def successively_append_iff successively_Cons
        both_free_def c1_def c2_def)
  show ?thesis using t l' c' n' by (auto simp: x_def)
qed

definition heap_inv :: "heap \<Rightarrow> blk list \<Rightarrow> bool" where
  "heap_inv h bs =
    (heap_initialized h \<and> unat (heap_end h) + 40 < 2 ^ 64 \<and> block_list h bs \<and>
     contiguous (unat (heap_end h)) bs \<and> no_adjacent_free bs)"

lemma malloc_loop_inv:
  assumes "lseg (store h) (heap_head h) pre cur" and "lseg (store h) cur cs 0"
    and "contiguous B (pre @ cs)" and "no_adjacent_free (pre @ cs)"
    and "40 \<le> unat ts" and "B + 40 < 2 ^ 64"
  shows "\<exists>h' p bs'. malloc_loop h ts cur = Some (h', p) \<and>
           heap_head h' = heap_head h \<and> heap_end h' = heap_end h \<and>
           heap_initialized h' = heap_initialized h \<and>
           lseg (store h') (heap_head h') bs' 0 \<and> contiguous B bs' \<and> no_adjacent_free bs'"
  using assms
proof (induction cs arbitrary: pre cur)
  case Nil
  then have "malloc_loop h ts cur = Some (h, 0)"
    by (subst malloc_loop.simps) simp
  then show ?case using Nil by auto
next
  case (Cons b cs)
  from Cons.prems(2) have cur: "cur = b_addr b" "cur \<noteq> 0"
    and mg: "bh_magic (store h cur) = BLOCK_MAGIC"
    and sz: "bh_size (store h cur) = b_size b"
    and fr: "(bh_is_free (store h cur) \<noteq> 0) = b_free b"
    and nx: "lseg (store h) (bh_next (store h cur)) cs 0"
    by auto
  have whole: "lseg (store h) (heap_head h) (pre @ b # cs) 0"
    using Cons.prems(1,2) by (auto simp: lseg_append)
  show ?case
  proof (cases "b_free b \<and> ts \<le> b_size b")
    case True
    then have t: "malloc_loop h ts cur = Some (malloc_take h ts (b_addr b))"
      using cur mg sz fr by (subst malloc_loop.simps) simp
    show ?thesis
    proof (cases "ts + MIN_BLOCK_SIZE \<le> b_size b")
      case True
      from take_split [OF whole Cons.prems(3,4) _ _ True Cons.prems(5,6)] \<open>b_free b \<and> ts \<le> b_size b\<close>
      show ?thesis unfolding t by auto
    next
      case False
      from take_whole [OF whole Cons.prems(3,4) False]
      show ?thesis unfolding t by blast
    qed
  next
    case False
    then have t: "malloc_loop h ts cur = malloc_loop h ts (bh_next (store h cur))"
      using cur mg sz fr by (subst malloc_loop.simps) auto
    have "lseg (store h) (heap_head h) (pre @ [b]) (bh_next (store h cur))"
      using Cons.prems(1,2) by (auto simp: lseg_append)
    from Cons.IH [OF this nx] Cons.prems(3-6)
    show ?thesis unfolding t by simp
  qed
qed

lemma malloc_inv:
  assumes "heap_inv h bs"
  shows "\<exists>h' p bs'. malloc h n = Some (h', p) \<and> heap_inv h' bs' \<and> heap_end h' = heap_end h"
proof (cases "n = 0")
  case True
  then show ?thesis using assms by (auto simp: malloc_def heap_inv_def)
next
  case False
  define ts0 where "ts0 = ALIGN (HEADER_SIZE + n)"
  define ts where "ts = (if ts0 < MIN_BLOCK_SIZE then MIN_BLOCK_SIZE else ts0)"
  have m: "malloc h n = malloc_loop h ts (heap_head h)"
    using assms False by (simp add: malloc_def heap_inv_def Let_def ts_def ts0_def)
  have "MIN_BLOCK_SIZE \<le> ts"
    by (simp add: ts_def not_less)
  then have t40: "40 \<le> unat ts"
    by (simp add: word_le_nat_alt unat_min_block)
  have "lseg (store h) (heap_head h) [] (heap_head h)" by simp
  from malloc_loop_inv [OF this _ _ _ t40, of bs "unat (heap_end h)"] assms
  show ?thesis unfolding m by (auto simp: heap_inv_def block_list_def)
qed

lemma walk_noop:
  assumes "lseg (store h) cur cs 0" and "block \<notin> b_addr ` set (tl cs)"
  shows "free_loop h block cur = Some h"
  using assms
proof (induction cs arbitrary: cur)
  case Nil
  then show ?case by (subst free_loop.simps) simp
next
  case (Cons b cs)
  define n where "n = bh_next (store h cur)"
  from Cons.prems(1) have cur: "cur \<noteq> 0" and nx: "lseg (store h) n cs 0"
    by (auto simp: n_def)
  show ?case
  proof (cases cs)
    case Nil
    then have "n = 0" using nx by simp
    then show ?thesis by (subst free_loop.simps) (simp add: n_def)
  next
    case (Cons c cs')
    then have n: "n = b_addr c" "n \<noteq> 0" and nn: "lseg (store h) (bh_next (store h n)) cs' 0"
      using nx by auto
    have nb: "n \<noteq> block"
      using Cons.prems(2) Cons n by auto
    have nnb: "bh_next (store h n) \<noteq> 0 \<longrightarrow> bh_next (store h n) \<noteq> block"
      using nn Cons.prems(2) Cons by (cases cs') auto
    have m3: "merge_three h block cur = h"
      using nnb by (auto simp: merge_three_def Let_def n_def)
    have "free_loop h block cur = free_loop h block n"
      using cur n nb by (subst free_loop.simps) (simp add: m3 n_def [symmetric])
    moreover have "block \<notin> b_addr ` set (tl cs)"
      using Cons.prems(2) Cons by auto
    ultimately show ?thesis using Cons.IH [OF nx] by simp
  qed
qed

lemma naf_join:
  "no_adjacent_free (xs @ [y]) \<Longrightarrow> no_adjacent_free (y # zs) \<Longrightarrow> no_adjacent_free (xs @ y # zs)"
  by (auto simp: no_adjacent_free_def successively_append_iff)

lemma naf_flags:
  "b_free y' = b_free y \<Longrightarrow> no_adjacent_free (xs @ [y']) = no_adjacent_free (xs @ [y])"
  by (auto simp: no_adjacent_free_def successively_append_iff both_free_def)

text \<open>A free block takes in the free block behind it.\<close>

lemma absorb:
  assumes l: "lseg m a (pre @ p # b # post) 0"
    and c: "contiguous B (pre @ p # b # post)"
    and B: "B < 2 ^ 64"
    and n2: "no_adjacent_free (b # post)"
    and f: "b_free b"
    and m': "m' = m(b_addr p := (m (b_addr p))\<lparr>bh_size := b_size p + b_size b,
               bh_next := bh_next (m (b_addr b))\<rparr>)"
    and p': "p' = p\<lparr>b_size := b_size p + b_size b\<rparr>"
  shows "lseg m' a (pre @ p' # post) 0" and "contiguous B (pre @ p' # post)"
    and "no_adjacent_free (p' # post)"
proof -
  from c have adj: "unat (b_addr p) + unat (b_size p) = unat (b_addr b)" "0 < unat (b_size p)"
    and ins: "unat (b_addr b) + unat (b_size b) \<le> B"
    by (auto simp: contiguous_def successively_append_iff successively_Cons adjacent_def inside_def)
  have "unat (b_size p) + unat (b_size b) < 2 ^ 64"
    using adj ins B by simp
  then have us: "unat (b_size p + b_size b) = unat (b_size p) + unat (b_size b)"
    by (rule unat_plus_small)
  have d1: "\<forall>q \<in> set pre. b_addr q \<noteq> b_addr p"
    using contiguous_split(1) [OF c] .
  have d2: "\<forall>q \<in> set post. b_addr q \<noteq> b_addr p"
    using contiguous_split(2) [OF c] by simp
  have f1: "lseg m' x pre z = lseg m x pre z" for x z
    by (rule lseg_frame) (use d1 in \<open>auto simp: m'\<close>)
  have f2: "lseg m' x post z = lseg m x post z" for x z
    by (rule lseg_frame) (use d2 in \<open>auto simp: m'\<close>)
  show "lseg m' a (pre @ p' # post) 0"
    using l by (auto simp: lseg_append f1 f2 p') (auto simp: m')
  show "contiguous B (pre @ p' # post)"
    using c us adj ins
    by (cases post)
      (auto simp: contiguous_def successively_append_iff successively_Cons
        adjacent_def inside_def p')
  show "no_adjacent_free (p' # post)"
    using n2 f by (cases post) (auto simp: no_adjacent_free_def both_free_def p')
qed

lemma free_loop_inv:
  assumes "lseg (store h) (heap_head h) dn cur"
    and "lseg (store h) cur (qs @ b # post) 0"
    and "contiguous B (dn @ qs @ b # post)"
    and "B < 2 ^ 64"
    and "no_adjacent_free (dn @ qs)"
    and "no_adjacent_free (b # post)"
    and "b_free b"
    and "qs = [] \<longrightarrow> no_adjacent_free (dn @ [b])"
  shows "\<exists>h' bs'. free_loop h (b_addr b) cur = Some h' \<and>
           heap_head h' = heap_head h \<and> heap_end h' = heap_end h \<and>
           heap_initialized h' = heap_initialized h \<and>
           lseg (store h') (heap_head h') bs' 0 \<and> contiguous B bs' \<and> no_adjacent_free bs'"
  using assms
proof (induction qs arbitrary: dn cur)
  case Nil
  have "b_addr b \<notin> b_addr ` set post"
    using contiguous_split(2) [of B dn b post] Nil.prems(3) by auto
  then have "free_loop h (b_addr b) cur = Some h"
    using Nil.prems(2) by (intro walk_noop [where cs = "b # post"]) auto
  moreover have "lseg (store h) (heap_head h) (dn @ b # post) 0"
    using Nil.prems(1,2) by (auto simp: lseg_append)
  moreover have "no_adjacent_free (dn @ b # post)"
    using Nil.prems(6,8) by (simp add: naf_join)
  ultimately show ?case using Nil.prems(3) by auto
next
  case (Cons q qs)
  define block where "block = b_addr b"
  define n where "n = bh_next (store h cur)"
  have whole: "lseg (store h) (heap_head h) (dn @ q # qs @ b # post) 0"
    using Cons.prems(1,2) by (auto simp: lseg_append)
  have dist: "distinct (map b_addr (dn @ q # qs @ b # post))"
    using Cons.prems(3) contiguous_distinct by fastforce
  from Cons.prems(2) have cur: "cur = b_addr q" and cur0: "cur \<noteq> 0"
    and fq: "(bh_is_free (store h cur) \<noteq> 0) = b_free q"
    and nx: "lseg (store h) n (qs @ b # post) 0"
    by (auto simp: n_def)
  have dn': "lseg (store h) (heap_head h) (dn @ [q]) n"
    using Cons.prems(1,2) by (auto simp: lseg_append n_def)
  have b0: "block \<noteq> 0" and fb: "bh_is_free (store h block) \<noteq> 0"
    and nbb: "bh_next (store h block) \<noteq> block"
    using nx Cons.prems(7) dist by (cases post; auto simp: lseg_append block_def)+
  show ?case
  proof (cases qs)
    case Nil
    then have n: "n = block" using nx by (simp add: block_def)
    show ?thesis
    proof (cases "b_free q")
      case True
      define m' where "m' = (store h)(b_addr q := (store h (b_addr q))\<lparr>bh_size := b_size q + b_size b,
               bh_next := bh_next (store h (b_addr b))\<rparr>)"
      define q' where "q' = q\<lparr>b_size := b_size q + b_size b\<rparr>"
      have qb: "b_addr q \<noteq> b_addr b" using dist by auto
      have sz: "bh_size (store h (b_addr q)) = b_size q" "bh_size (store h (b_addr b)) = b_size b"
        using Cons.prems(2) Nil by auto
      have "free_loop h block cur = Some (merge_prev h block cur)"
        using True fq cur0 n b0 by (subst free_loop.simps) (simp add: n_def [symmetric])
      moreover have "merge_prev h block cur = h\<lparr>store := m'\<rparr>"
        using qb sz by (simp add: merge_prev_def set_size_def set_next_def Let_def m'_def
            cur block_def)
      moreover have w: "lseg (store h) (heap_head h) (dn @ q # b # post) 0"
        using whole Nil by simp
      moreover have c: "contiguous B (dn @ q # b # post)"
        using Cons.prems(3) Nil by simp
      moreover note absorb [OF w c Cons.prems(4,6,7) m'_def q'_def]
      moreover have "no_adjacent_free (dn @ [q'])"
        using Cons.prems(5) Nil naf_flags [of q' q dn] by (simp add: q'_def)
      ultimately show ?thesis
        using naf_join [of dn q' post] by (auto simp: block_def)
    next
      case False
      have m3: "merge_three h block cur = h"
        using nbb n by (auto simp: merge_three_def Let_def n_def)
      have "free_loop h block cur = free_loop h block n"
        using False fq cur0 n b0 by (subst free_loop.simps) (simp add: m3 n_def [symmetric])
      moreover have "no_adjacent_free ((dn @ [q]) @ [b])"
        using Cons.prems(5) Nil False
        by (auto simp: no_adjacent_free_def successively_append_iff both_free_def)
      moreover note Cons.IH [OF dn' nx, unfolded Nil]
      ultimately show ?thesis
        using Cons.prems(3,4,5,6,7) Nil by (simp add: block_def)
    qed
  next
    case (Cons p qs')
    from nx Cons have n: "n = b_addr p" "n \<noteq> 0" and fp: "(bh_is_free (store h n) \<noteq> 0) = b_free p"
      by auto
    have nb: "n \<noteq> block" using dist Cons n by (auto simp: block_def)
    have cn: "cur \<noteq> n" using dist Cons n cur by auto
    show ?thesis
    proof (cases "qs' = [] \<and> b_free p")
      case True
      then have qs: "qs = [p]" and fp': "b_free p" using Cons by auto
      define m' where "m' = (store h)(b_addr p := (store h (b_addr p))\<lparr>bh_size := b_size p + b_size b,
               bh_next := bh_next (store h (b_addr b))\<rparr>)"
      define p' where "p' = p\<lparr>b_size := b_size p + b_size b\<rparr>"
      have pb: "b_addr p \<noteq> b_addr b" using nb n by (simp add: block_def)
      have sz: "bh_size (store h (b_addr p)) = b_size p" "bh_size (store h (b_addr b)) = b_size b"
        and np: "bh_next (store h n) = block"
        using nx qs n by (auto simp: block_def)
      have m3: "merge_three h block cur = h\<lparr>store := m'\<rparr>"
        using fp fp' np b0 fb pb sz n
        by (simp add: merge_three_def Let_def n_def [symmetric] set_size_def set_next_def
            m'_def block_def)
      have step: "free_loop h block cur = free_loop (h\<lparr>store := m'\<rparr>) block n"
        using cur0 n nb cn
        by (subst free_loop.simps) (simp add: m3 n_def [symmetric], simp add: m'_def n_def)
      have w: "lseg (store h) (heap_head h) ((dn @ [q]) @ p # b # post) 0"
        using whole qs by simp
      have c: "contiguous B ((dn @ [q]) @ p # b # post)"
        using Cons.prems(3) qs by simp
      note a = absorb [OF w c Cons.prems(4,6,7) m'_def p'_def]
      have "lseg m' n (p' # post) 0"
        using a(1) dn' n by (auto simp: lseg_append p'_def)
      moreover have "block \<notin> b_addr ` set post"
        using dist by (auto simp: block_def)
      ultimately have "free_loop (h\<lparr>store := m'\<rparr>) block n = Some (h\<lparr>store := m'\<rparr>)"
        by (intro walk_noop [where cs = "p' # post"]) auto
      moreover have "no_adjacent_free ((dn @ [q]) @ [p'])"
        using Cons.prems(5) qs naf_flags [of p' p "dn @ [q]"] by (simp add: p'_def)
      ultimately show ?thesis
        using step a naf_join [of "dn @ [q]" p' post] by (auto simp: block_def)
    next
      case False
      have "bh_next (store h n) \<noteq> block \<or> \<not> b_free p"
      proof (cases qs')
        case Nil
        then show ?thesis using False by simp
      next
        case (Cons r rs)
        then have "bh_next (store h n) = b_addr r"
          using nx \<open>qs = p # qs'\<close> by auto
        then show ?thesis using dist \<open>qs = p # qs'\<close> Cons by (auto simp: block_def)
      qed
      then have m3: "merge_three h block cur = h"
        using fp by (auto simp: merge_three_def Let_def n_def [symmetric])
      have "free_loop h block cur = free_loop h block n"
        using cur0 n nb by (subst free_loop.simps) (simp add: m3 n_def [symmetric])
      moreover have "no_adjacent_free ((dn @ [q]) @ qs)"
        using Cons.prems(5) by simp
      moreover note Cons.IH [OF dn' nx]
      ultimately show ?thesis
        using Cons.prems(3,4,6,7) Cons by (simp add: block_def)
    qed
  qed
qed

lemma free_skip:
  "ptr = 0 \<or> bh_magic (store h (ptr - HEADER_SIZE)) \<noteq> BLOCK_MAGIC \<or>
     bh_is_free (store h (ptr - HEADER_SIZE)) \<noteq> 0 \<Longrightarrow> free h ptr = Some h"
  by (auto simp: free_def Let_def)

text \<open>The state of free when its walk starts: the block is marked and has taken in a free
  successor.\<close>

definition free_marked :: "heap \<Rightarrow> u64 \<Rightarrow> heap" where
  "free_marked h block =
    (let h = set_is_free h block 1;
         h = h\<lparr>total_freed := total_freed h + bh_size (store h block)\<rparr>;
         n = bh_next (store h block)
     in if n \<noteq> 0 \<and> bh_is_free (store h n) \<noteq> 0 then
          let h = set_size h block (bh_size (store h block) + bh_size (store h n))
          in set_next h block (bh_next (store h n))
        else h)"

lemma free_unfold:
  assumes "ptr \<noteq> 0" and "bh_magic (store h (ptr - HEADER_SIZE)) = BLOCK_MAGIC"
    and "bh_is_free (store h (ptr - HEADER_SIZE)) = 0"
  shows "free h ptr =
     free_loop (free_marked h (ptr - HEADER_SIZE)) (ptr - HEADER_SIZE)
       (heap_head (free_marked h (ptr - HEADER_SIZE)))"
  using assms by (simp add: free_def free_marked_def Let_def)

lemma free_marked_fields:
  "heap_head (free_marked h block) = heap_head h"
  "heap_end (free_marked h block) = heap_end h"
  "heap_initialized (free_marked h block) = heap_initialized h"
  by (simp_all add: free_marked_def Let_def set_is_free_def set_size_def set_next_def)

lemma free_marked_other:
  "a \<noteq> block \<Longrightarrow> store (free_marked h block) a = store h a"
  by (simp add: free_marked_def Let_def set_is_free_def set_size_def set_next_def)

lemma free_marked_block:
  assumes "bh_next (store h block) \<noteq> block"
  shows "store (free_marked h block) block =
    (let n = bh_next (store h block) in
     if n \<noteq> 0 \<and> bh_is_free (store h n) \<noteq> 0 then
       (store h block)\<lparr>bh_is_free := 1, bh_size := bh_size (store h block) + bh_size (store h n),
          bh_next := bh_next (store h n)\<rparr>
     else (store h block)\<lparr>bh_is_free := 1\<rparr>)"
  using assms by (simp add: free_marked_def Let_def set_is_free_def set_size_def set_next_def)

lemma free_inv:
  assumes inv: "heap_inv h bs"
  shows "\<exists>h' bs'. free h ptr = Some h' \<and> heap_inv h' bs' \<and> heap_end h' = heap_end h"
proof -
  define block where "block = ptr - HEADER_SIZE"
  define B where "B = unat (heap_end h)"
  define h3 where "h3 = free_marked h block"
  from inv have l: "lseg (store h) (heap_head h) bs 0" and c: "contiguous B bs"
    and n: "no_adjacent_free bs" and B: "B < 2 ^ 64" and B40: "B + 40 < 2 ^ 64"
    and ini: "heap_initialized h"
    by (auto simp: heap_inv_def block_list_def B_def)
  consider (skip) "ptr = 0 \<or> bh_magic (store h block) \<noteq> BLOCK_MAGIC \<or> bh_is_free (store h block) \<noteq> 0"
    | (out) "ptr \<noteq> 0" "bh_magic (store h block) = BLOCK_MAGIC" "bh_is_free (store h block) = 0"
        "block \<notin> b_addr ` set bs"
    | (inn) "ptr \<noteq> 0" "bh_magic (store h block) = BLOCK_MAGIC" "bh_is_free (store h block) = 0"
        "block \<in> b_addr ` set bs"
    by blast
  then show ?thesis
  proof cases
    case skip
    then have "free h ptr = Some h"
      unfolding block_def by (rule free_skip)
    then show ?thesis using inv by auto
  next
    case out
    have f: "free h ptr = free_loop h3 block (heap_head h3)"
      using free_unfold [of ptr h] out(1-3) by (simp add: block_def h3_def)
    have l3: "lseg (store h3) (heap_head h3) bs 0"
    proof -
      have "lseg (store h3) (heap_head h) bs 0 = lseg (store h) (heap_head h) bs 0"
        by (rule lseg_frame) (use out(4) in \<open>auto simp: h3_def intro!: free_marked_other\<close>)
      then show ?thesis using l by (simp add: h3_def free_marked_fields)
    qed
    have "block \<notin> b_addr ` set (tl bs)"
      using out(4) by (cases bs) auto
    with l3 have "free_loop h3 block (heap_head h3) = Some h3"
      by (rule walk_noop)
    moreover have "heap_inv h3 bs"
      using l3 c n B40 ini by (simp add: heap_inv_def block_list_def h3_def free_marked_fields B_def)
    ultimately show ?thesis using f by (auto simp: h3_def free_marked_fields)
  next
    case inn
    then obtain b where bin: "b \<in> set bs" and bb: "b_addr b = block" by auto
    then obtain pre post where bs: "bs = pre @ b # post"
      by (auto dest: split_list)
    have d1: "\<forall>q \<in> set pre. b_addr q \<noteq> block" and d2: "\<forall>q \<in> set post. b_addr q \<noteq> block"
      using contiguous_split [OF c [unfolded bs]] by (simp_all add: bb)
    from l bs bb obtain lp: "lseg (store h) (heap_head h) pre block"
      and sz: "bh_size (store h block) = b_size b" and b0: "block \<noteq> 0"
      and fb: "\<not> b_free b"
      and lq: "lseg (store h) (bh_next (store h block)) post 0"
      using inn(3) by (auto simp: lseg_append)
    have nbb: "bh_next (store h block) \<noteq> block"
      using lq d2 b0 by (cases post) auto
    define b1 where "b1 = b\<lparr>b_free := True\<rparr>"
    define m1 where "m1 = (store h)(block := (store h block)\<lparr>bh_is_free := 1\<rparr>)"
    have f1: "lseg m1 x pre z = lseg (store h) x pre z" for x z
      by (rule lseg_frame) (use d1 in \<open>auto simp: m1_def\<close>)
    have f2: "lseg m1 x post z = lseg (store h) x post z" for x z
      by (rule lseg_frame) (use d2 in \<open>auto simp: m1_def\<close>)
    have l1: "lseg m1 (heap_head h) (pre @ b1 # post) 0"
      using lp lq b0 sz inn(2) by (simp add: lseg_append f1 f2 b1_def bb) (simp add: m1_def)
    have c1: "contiguous B (pre @ b1 # post)"
      using c bs
      by (auto simp: contiguous_def successively_append_iff successively_Cons
        adjacent_def inside_def b1_def)
    have npre: "no_adjacent_free pre" and npost: "no_adjacent_free post"
      using n bs by (auto simp: no_adjacent_free_def successively_append_iff successively_Cons)
    have f: "free h ptr = free_loop h3 block (heap_head h)"
      using free_unfold [of ptr h] inn(1-3) by (simp add: block_def h3_def free_marked_fields)
    have "\<exists>b' post'. b_addr b' = block \<and> b_free b' \<and>
        lseg (store h3) (heap_head h3) (pre @ b' # post') 0 \<and>
        contiguous B (pre @ b' # post') \<and> no_adjacent_free (b' # post')"
    proof (cases "post \<noteq> [] \<and> b_free (hd post)")
      case True
      then obtain cc post' where post: "post = cc # post'" and fc: "b_free cc"
        by (cases post) auto
      have nx: "bh_next (store h block) = b_addr cc" "b_addr cc \<noteq> 0"
        "bh_is_free (store h (b_addr cc)) \<noteq> 0" "bh_size (store h (b_addr cc)) = b_size cc"
        using lq post fc by auto
      have cb: "b_addr cc \<noteq> block" using d2 post by simp
      define b2 where "b2 = b1\<lparr>b_size := b_size b1 + b_size cc\<rparr>"
      define m2 where "m2 = m1(b_addr b1 := (m1 (b_addr b1))\<lparr>bh_size := b_size b1 + b_size cc,
               bh_next := bh_next (m1 (b_addr cc))\<rparr>)"
      have s3: "store h3 = m2"
        using free_marked_block [OF nbb] nx cb sz
        by (auto simp: fun_eq_iff h3_def free_marked_other m2_def m1_def b1_def bb Let_def)
      have "no_adjacent_free (cc # post')"
        using npost post by simp
      from absorb [OF l1 [unfolded post] c1 [unfolded post] B this fc m2_def b2_def]
      show ?thesis
        using s3 by (intro exI [of _ b2] exI [of _ post'])
          (simp add: b2_def b1_def bb h3_def free_marked_fields)
    next
      case False
      have s3: "store h3 = m1"
      proof (cases post)
        case Nil
        then have "bh_next (store h block) = 0" using lq by simp
        then show ?thesis
          using free_marked_block [OF nbb]
          by (auto simp: fun_eq_iff h3_def free_marked_other m1_def Let_def)
      next
        case (Cons cc post')
        then have "bh_is_free (store h (bh_next (store h block))) = 0"
          using lq False by auto
        then show ?thesis
          using free_marked_block [OF nbb]
          by (auto simp: fun_eq_iff h3_def free_marked_other m1_def Let_def)
      qed
      have "no_adjacent_free (b1 # post)"
        using npost False
        by (cases post) (auto simp: no_adjacent_free_def both_free_def)
      then show ?thesis
        using s3 l1 c1 by (intro exI [of _ b1] exI [of _ post])
          (simp add: b1_def bb h3_def free_marked_fields)
    qed
    then obtain b' post' where b': "b_addr b' = block" "b_free b'"
      "lseg (store h3) (heap_head h3) (pre @ b' # post') 0"
      "contiguous B (pre @ b' # post')" "no_adjacent_free (b' # post')"
      by blast
    have e: "lseg (store h3) (heap_head h3) [] (heap_head h3)" by simp
    have "no_adjacent_free ([] @ pre)" using npre by simp
    moreover have "pre = [] \<longrightarrow> no_adjacent_free ([] @ [b'])"
      by (simp add: no_adjacent_free_def)
    moreover have "contiguous B ([] @ pre @ b' # post')" using b'(4) by simp
    ultimately obtain h' bs' where r: "free_loop h3 (b_addr b') (heap_head h3) = Some h'"
      "heap_head h' = heap_head h3" "heap_end h' = heap_end h3"
      "heap_initialized h' = heap_initialized h3"
      "lseg (store h') (heap_head h') bs' 0" "contiguous B bs'" "no_adjacent_free bs'"
      using free_loop_inv [OF e b'(3) _ B _ b'(5) b'(2)] by blast
    have "heap_inv h' bs'"
      using r B40 ini by (simp add: heap_inv_def block_list_def h3_def free_marked_fields B_def)
    then show ?thesis
      using f r by (auto simp: b' h3_def free_marked_fields)
  qed
qed

text \<open>
  What the allocator needs of the linker symbols: aligning \<^verbatim>\<open>__heap_start\<close> up does not
  wrap around and stays within the region, and the region ends more than 40 bytes (one
  minimal block) below the top of the address space.
\<close>

definition heap_ok :: "heap \<Rightarrow> bool" where
  "heap_ok h =
    (\<not> heap_initialized h \<and> heap_start h \<le> ALIGN (heap_start h) \<and>
     ALIGN (heap_start h) \<le> heap_end h \<and> unat (heap_end h) + 40 < 2 ^ 64)"

lemma heap_init_inv:
  assumes "heap_ok h"
  shows "\<exists>bs. heap_inv (heap_init h) bs \<and> heap_end (heap_init h) = heap_end h"
proof -
  define a where "a = ALIGN (heap_start h)"
  define sz where "sz = (heap_end h - heap_start h - (a - heap_start h)) AND NOT (ALIGN_SIZE - 1)"
  define hi where "hi = heap_init h"
  from assms have ok: "\<not> heap_initialized h" "heap_start h \<le> a" "a \<le> heap_end h"
    "unat (heap_end h) + 40 < 2 ^ 64"
    by (simp_all add: heap_ok_def a_def)
  have f: "heap_head hi = a" "heap_end hi = heap_end h" "heap_initialized hi"
    "store hi a = (store h a)\<lparr>bh_size := sz, bh_next := 0, bh_is_free := 1, bh_magic := BLOCK_MAGIC\<rparr>"
    using ok(1)
    by (simp_all add: hi_def heap_init_def Let_def set_size_def set_next_def set_is_free_def
        set_magic_def a_def sz_def)
  have "heap_end h - heap_start h - (a - heap_start h) = heap_end h - a"
    by simp
  then have "sz \<le> heap_end h - a"
    by (simp add: sz_def word_and_le2)
  then have "unat sz \<le> unat (heap_end h) - unat a"
    using ok(3) by (simp add: word_le_nat_alt unat_sub)
  then have ins: "unat a + unat sz \<le> unat (heap_end h)"
    using ok(3) by (simp add: word_le_nat_alt)
  show ?thesis
  proof (cases "a = 0")
    case True
    then have "heap_inv hi []"
      using f ok(4) by (simp add: heap_inv_def block_list_def contiguous_def no_adjacent_free_def)
    then show ?thesis using f by (auto simp: hi_def)
  next
    case False
    then have "heap_inv hi [\<lparr>b_addr = a, b_size = sz, b_free = True\<rparr>]"
      using f ok(4) ins
      by (simp add: heap_inv_def block_list_def contiguous_def no_adjacent_free_def inside_def)
    then show ?thesis using f by (auto simp: hi_def)
  qed
qed

lemma run_inv:
  "heap_inv h bs \<Longrightarrow> \<exists>h' bs'. run ops h = Some h' \<and> heap_inv h' bs' \<and> heap_end h' = heap_end h"
proof (induction ops arbitrary: h bs)
  case Nil
  then show ?case by auto
next
  case (Cons op ops)
  show ?case
  proof (cases op)
    case (Malloc n)
    from malloc_inv [OF Cons.prems, of n] obtain h1 p bs1
      where m: "malloc h n = Some (h1, p)" "heap_inv h1 bs1" "heap_end h1 = heap_end h"
      by blast
    from Cons.IH [OF m(2)] show ?thesis
      using m Malloc by auto
  next
    case (Free p)
    from free_inv [OF Cons.prems, of p] obtain h1 bs1
      where m: "free h p = Some h1" "heap_inv h1 bs1" "heap_end h1 = heap_end h"
      by blast
    from Cons.IH [OF m(2)] show ?thesis
      using m Free by auto
  qed
qed

text \<open>
  C3 (allocator coalescing invariant). From the heap as \<^const>\<open>heap_init\<close> leaves it, every
  finite sequence of malloc and free calls returns, and afterwards the blocks reached
  from \<^const>\<open>heap_head\<close> form a finite list in physical order (each block ends where the
  next one starts, all within the heap region) in which no two neighbours are both free.
  The pointers passed to free are arbitrary.
\<close>

theorem coalescing_invariant:
  assumes "heap_ok h0"
  shows "\<exists>h bs. run ops (heap_init h0) = Some h \<and> block_list h bs \<and>
           contiguous (unat (heap_end h0)) bs \<and> no_adjacent_free bs"
proof -
  from heap_init_inv [OF assms] obtain bs0
    where i: "heap_inv (heap_init h0) bs0" "heap_end (heap_init h0) = heap_end h0"
    by blast
  from run_inv [OF i(1), of ops] obtain h bs
    where r: "run ops (heap_init h0) = Some h" "heap_inv h bs" "heap_end h = heap_end (heap_init h0)"
    by blast
  then show ?thesis
    using i(2) by (auto simp: heap_inv_def)
qed

lemma boot_heap_ok: "heap_ok boot_heap"
  by (simp add: heap_ok_def boot_heap_def ALIGN_def ALIGN_SIZE_def)

theorem coalescing_invariant_witness:
  "heap_ok boot_heap \<and>
   (\<exists>h bs. run [Malloc 100, Malloc 200, Free 0x40100018, Malloc 50, Free 0x40100098,
                Free 0x40100018, Free 0x40100018] (heap_init boot_heap) = Some h \<and>
      block_list h bs \<and> contiguous (unat (heap_end boot_heap)) bs \<and> no_adjacent_free bs)"
  using coalescing_invariant [OF boot_heap_ok] boot_heap_ok by blast

section \<open>TinyFS (kernel/fs.c)\<close>

subsection \<open>The block device (drivers/virtio/blk.c)\<close>

text \<open>
  The disk as the driver sees it: a sector is 512 bytes, read and written by requests of
  at most 128 sectors (\<^verbatim>\<open>do_blk_io\<close>; the file system asks for 1, 4 or 8). A request
  returns -1 when the driver is not initialized or the device does not answer it with
  status OK; which sectors the device refuses to read or to write is part of the device.
  \<^verbatim>\<open>None\<close> stands for the return value -1.
\<close>

record blk_dev =
  blk_initialized :: bool
  capacity :: u64
  sectors :: "u64 \<Rightarrow> nat \<Rightarrow> u8"
  fail_read :: "u64 \<Rightarrow> bool"
  fail_write :: "u64 \<Rightarrow> bool"

definition blk_available :: "blk_dev \<Rightarrow> bool" where
  "blk_available d = blk_initialized d"

definition blk_read :: "blk_dev \<Rightarrow> u64 \<Rightarrow> nat \<Rightarrow> u8 list option" where
  "blk_read d sector count =
    (if blk_initialized d \<and> list_all (\<lambda>k. \<not> fail_read d (sector + of_nat k)) [0..<count]
     then Some (concat (map (\<lambda>k. map (sectors d (sector + of_nat k)) [0..<512]) [0..<count]))
     else None)"

definition blk_write :: "blk_dev \<Rightarrow> u64 \<Rightarrow> nat \<Rightarrow> u8 list \<Rightarrow> blk_dev option" where
  "blk_write d sector count buf =
    (if blk_initialized d \<and> list_all (\<lambda>k. \<not> fail_write d (sector + of_nat k)) [0..<count]
     then Some (d\<lparr>sectors := (\<lambda>s. if unat (s - sector) < count
                                   then (\<lambda>i. buf ! (unat (s - sector) * 512 + i))
                                   else sectors d s)\<rparr>)
     else None)"

subsection \<open>The cached file system state\<close>

definition FS_MAGIC :: u32 where "FS_MAGIC = 0x54465321"
definition FS_VERSION :: u32 where "FS_VERSION = 1"
definition FS_MAX_FILENAME :: nat where "FS_MAX_FILENAME = 20"
definition FS_MAX_FILES :: nat where "FS_MAX_FILES = 64"
definition FS_MAX_OPEN :: nat where "FS_MAX_OPEN = 8"
definition FS_CLUSTER_SIZE :: u32 where "FS_CLUSTER_SIZE = 2048"
definition FS_SECTORS_PER_CLUSTER :: u32 where "FS_SECTORS_PER_CLUSTER = 4"
definition FS_O_READ :: u32 where "FS_O_READ = 0x01"
definition FS_O_WRITE :: u32 where "FS_O_WRITE = 0x02"
definition FS_O_CREATE :: u32 where "FS_O_CREATE = 0x04"
definition FS_O_TRUNC :: u32 where "FS_O_TRUNC = 0x08"
definition FS_O_APPEND :: u32 where "FS_O_APPEND = 0x10"
definition FAT_FREE :: u16 where "FAT_FREE = 0x0000"
definition FAT_EOF :: u16 where "FAT_EOF = 0xFFFF"
definition SUPERBLOCK_SECTOR :: u64 where "SUPERBLOCK_SECTOR = 0"
definition FAT_START_SECTOR :: u32 where "FAT_START_SECTOR = 1"
definition FAT_SECTORS :: u32 where "FAT_SECTORS = 8"
definition ROOT_START_SECTOR :: u32 where "ROOT_START_SECTOR = 9"
definition ROOT_SECTORS :: u32 where "ROOT_SECTORS = 4"
definition DATA_START_SECTOR :: u32 where "DATA_START_SECTOR = 13"

record fs_dirent =
  de_name :: string
  de_size :: u32
  de_first_cluster :: u16
  de_flags :: u16
  de_reserved :: u32

record fs_superblock =
  sb_magic :: u32
  sb_version :: u32
  sb_total_sectors :: u32
  sb_total_clusters :: u32
  sb_free_clusters :: u32
  sb_fat_start :: u32
  sb_fat_sectors :: u32
  sb_root_start :: u32
  sb_root_sectors :: u32
  sb_data_start :: u32

record open_file =
  of_in_use :: bool
  of_dirent_idx :: int
  of_size :: u32
  of_pos :: u32
  of_first_cluster :: u16
  of_flags :: u32

text \<open>
  The static variables of fs.c and the device. \<^verbatim>\<open>fat\<close> has 2048 entries, \<^verbatim>\<open>root_dir\<close> 64
  and \<^verbatim>\<open>open_files\<close> 8; a name is the array \<^verbatim>\<open>char name[20]\<close>. An access outside an
  array is undefined behaviour in C: the functions below return \<^verbatim>\<open>None\<close> there.
\<close>

record fs_state =
  dev :: blk_dev
  superblock :: fs_superblock
  fat :: "u16 list"
  root_dir :: "fs_dirent list"
  open_files :: "open_file list"
  fs_is_mounted :: bool
  sector_buf :: "u8 list"

text \<open>The bytes of the cached structures as they lie in memory (little-endian).\<close>

definition le16 :: "u16 \<Rightarrow> u8 list" where
  "le16 w = [ucast w, ucast (drop_bit 8 w)]"

definition le32 :: "u32 \<Rightarrow> u8 list" where
  "le32 w = [ucast w, ucast (drop_bit 8 w), ucast (drop_bit 16 w), ucast (drop_bit 24 w)]"

definition superblock_bytes :: "fs_superblock \<Rightarrow> u8 list" where
  "superblock_bytes sb =
    concat (map le32 [sb_magic sb, sb_version sb, sb_total_sectors sb, sb_total_clusters sb,
      sb_free_clusters sb, sb_fat_start sb, sb_fat_sectors sb, sb_root_start sb,
      sb_root_sectors sb, sb_data_start sb]) @ replicate 472 0"

definition dirent_bytes :: "fs_dirent \<Rightarrow> u8 list" where
  "dirent_bytes de =
    map of_char (de_name de) @ le32 (de_size de) @ le16 (de_first_cluster de) @
    le16 (de_flags de) @ le32 (de_reserved de)"

definition read_sector :: "fs_state \<Rightarrow> u64 \<Rightarrow> u8 list option" where
  "read_sector fs sector = blk_read (dev fs) sector 1"

definition write_region :: "fs_state \<Rightarrow> u64 \<Rightarrow> nat \<Rightarrow> u8 list \<Rightarrow> fs_state \<times> int" where
  "write_region fs sector count buf =
    (case blk_write (dev fs) sector count buf of
       None \<Rightarrow> (fs, - 1)
     | Some d \<Rightarrow> (fs\<lparr>dev := d\<rparr>, 0))"

definition write_superblock :: "fs_state \<Rightarrow> fs_state \<times> int" where
  "write_superblock fs = write_region fs SUPERBLOCK_SECTOR 1 (superblock_bytes (superblock fs))"

definition write_fat :: "fs_state \<Rightarrow> fs_state \<times> int" where
  "write_fat fs =
    write_region fs (ucast FAT_START_SECTOR) (unat FAT_SECTORS) (concat (map le16 (fat fs)))"

definition write_root_dir :: "fs_state \<Rightarrow> fs_state \<times> int" where
  "write_root_dir fs =
    write_region fs (ucast ROOT_START_SECTOR) (unat ROOT_SECTORS)
      (concat (map dirent_bytes (root_dir fs)))"

definition cluster_to_sector :: "u16 \<Rightarrow> u32" where
  "cluster_to_sector cluster = DATA_START_SECTOR + ucast cluster * FS_SECTORS_PER_CLUSTER"

function alloc_loop :: "u16 list \<Rightarrow> int \<Rightarrow> int \<Rightarrow> int option" where
  "alloc_loop ft total_clusters i =
    (if i < total_clusters then
       if 0 \<le> i \<and> nat i < length ft then
         if ft ! nat i = FAT_FREE then Some i
         else alloc_loop ft total_clusters (i + 1)
       else None
     else Some (- 1))"
  by pat_completeness auto

termination
  by (relation "measure (\<lambda>(ft, total_clusters, i). nat (total_clusters - i))") auto

declare alloc_loop.simps [simp del]

definition alloc_cluster :: "fs_state \<Rightarrow> (fs_state \<times> int) option" where
  "alloc_cluster fs =
    (case alloc_loop (fat fs) (sint (sb_total_clusters (superblock fs))) 1 of
       None \<Rightarrow> None
     | Some i \<Rightarrow>
         if i < 0 then Some (fs, - 1)
         else Some (fs\<lparr>fat := (fat fs)[nat i := FAT_EOF],
                       superblock := (superblock fs)
                         \<lparr>sb_free_clusters := sb_free_clusters (superblock fs) - 1\<rparr>\<rparr>, i))"

subsection \<open>Names and the directory\<close>

function fs_str_cmp :: "string \<Rightarrow> string \<Rightarrow> int" where
  "fs_str_cmp a b =
    (if deref a \<noteq> NUL \<and> deref b \<noteq> NUL \<and> deref a = deref b then fs_str_cmp (tl a) (tl b)
     else int (of_char (deref a)) - int (of_char (deref b)))"
  by pat_completeness auto

termination
  by (relation "measure (\<lambda>(a, b). length a)") (auto simp: deref_def NUL_def split: list.splits)

declare fs_str_cmp.simps [simp del]

function fs_str_cpy_loop :: "string \<Rightarrow> string \<Rightarrow> nat \<Rightarrow> nat \<Rightarrow> string" where
  "fs_str_cpy_loop dst src i maxlen =
    (if int i < int maxlen - 1 \<and> deref (drop i src) \<noteq> NUL
     then fs_str_cpy_loop (dst[i := deref (drop i src)]) src (i + 1) maxlen
     else dst[i := NUL])"
  by pat_completeness auto

termination
  by (relation "measure (\<lambda>(dst, src, i, maxlen). maxlen - i)") auto

declare fs_str_cpy_loop.simps [simp del]

definition fs_str_cpy :: "string \<Rightarrow> string \<Rightarrow> nat \<Rightarrow> string" where
  "fs_str_cpy dst src maxlen = fs_str_cpy_loop dst src 0 maxlen"

function find_file_loop :: "fs_dirent list \<Rightarrow> string \<Rightarrow> nat \<Rightarrow> int" where
  "find_file_loop rd name i =
    (if i < FS_MAX_FILES then
       if deref (de_name (rd ! i)) \<noteq> NUL \<and> fs_str_cmp (de_name (rd ! i)) name = 0 then int i
       else find_file_loop rd name (i + 1)
     else - 1)"
  by pat_completeness auto

termination
  by (relation "measure (\<lambda>(rd, name, i). FS_MAX_FILES - i)") auto

declare find_file_loop.simps [simp del]

definition find_file :: "fs_state \<Rightarrow> string \<Rightarrow> int" where
  "find_file fs name = find_file_loop (root_dir fs) name 0"

function find_free_dirent_loop :: "fs_dirent list \<Rightarrow> nat \<Rightarrow> int" where
  "find_free_dirent_loop rd i =
    (if i < FS_MAX_FILES then
       if deref (de_name (rd ! i)) = NUL then int i else find_free_dirent_loop rd (i + 1)
     else - 1)"
  by pat_completeness auto

termination
  by (relation "measure (\<lambda>(rd, i). FS_MAX_FILES - i)") auto

declare find_free_dirent_loop.simps [simp del]

definition find_free_dirent :: "fs_state \<Rightarrow> int" where
  "find_free_dirent fs = find_free_dirent_loop (root_dir fs) 0"

function find_free_fd :: "open_file list \<Rightarrow> nat \<Rightarrow> int" where
  "find_free_fd ofs i =
    (if i < FS_MAX_OPEN then
       if \<not> of_in_use (ofs ! i) then int i else find_free_fd ofs (i + 1)
     else - 1)"
  by pat_completeness auto

termination
  by (relation "measure (\<lambda>(ofs, i). FS_MAX_OPEN - i)") auto

declare find_free_fd.simps [simp del]

partial_function (option) free_cluster_chain :: "fs_state \<Rightarrow> u16 \<Rightarrow> fs_state option" where
  "free_cluster_chain fs start =
    (if start \<noteq> FAT_EOF \<and> start \<noteq> FAT_FREE \<and> start < 2048 then
       free_cluster_chain
         (fs\<lparr>fat := (fat fs)[unat start := FAT_FREE],
              superblock := (superblock fs)
                \<lparr>sb_free_clusters := sb_free_clusters (superblock fs) + 1\<rparr>\<rparr>)
         (fat fs ! unat start)
     else Some fs)"

declare free_cluster_chain.simps [code]

subsection \<open>Format, open, close, size\<close>

definition zero_dirent :: fs_dirent where
  "zero_dirent = \<lparr>de_name = replicate 20 NUL, de_size = 0, de_first_cluster = 0, de_flags = 0,
     de_reserved = 0\<rparr>"

definition zero_open_file :: open_file where
  "zero_open_file = \<lparr>of_in_use = False, of_dirent_idx = 0, of_size = 0, of_pos = 0,
     of_first_cluster = 0, of_flags = 0\<rparr>"

text \<open>\<^verbatim>\<open>blk_flush\<close> changes nothing that the file system reads and its result is ignored.\<close>

definition fs_format :: "fs_state \<Rightarrow> fs_state \<times> int" where
  "fs_format fs =
    (if \<not> blk_available (dev fs) then (fs, - 1)
     else
       let total_sectors = (ucast (capacity (dev fs)) :: u32) in
       if total_sectors < 32 then (fs, - 1)
       else
         let data_sectors = total_sectors - DATA_START_SECTOR;
             total_clusters = data_sectors div FS_SECTORS_PER_CLUSTER;
             total_clusters = (if total_clusters > 2048 then 2048 else total_clusters);
             sb = \<lparr>sb_magic = FS_MAGIC, sb_version = FS_VERSION, sb_total_sectors = total_sectors,
                   sb_total_clusters = total_clusters, sb_free_clusters = total_clusters,
                   sb_fat_start = FAT_START_SECTOR, sb_fat_sectors = FAT_SECTORS,
                   sb_root_start = ROOT_START_SECTOR, sb_root_sectors = ROOT_SECTORS,
                   sb_data_start = DATA_START_SECTOR\<rparr>;
             ft = (replicate 2048 0)[0 := FAT_EOF];
             sb = sb\<lparr>sb_free_clusters := sb_free_clusters sb - 1\<rparr>;
             fs = fs\<lparr>superblock := sb, fat := ft, root_dir := replicate FS_MAX_FILES zero_dirent,
                     open_files := replicate FS_MAX_OPEN zero_open_file\<rparr>;
             (fs, r) = write_superblock fs
         in if r \<noteq> 0 then (fs, - 1)
            else
              let (fs, r) = write_fat fs
              in if r \<noteq> 0 then (fs, - 1)
                 else
                   let (fs, r) = write_root_dir fs
                   in if r \<noteq> 0 then (fs, - 1)
                      else (fs\<lparr>fs_is_mounted := True\<rparr>, 0))"

definition install_fd :: "fs_state \<Rightarrow> nat \<Rightarrow> nat \<Rightarrow> u32 \<Rightarrow> fs_state \<times> int" where
  "install_fd fs fd idx flags =
    (let de = root_dir fs ! idx in
     (fs\<lparr>open_files := (open_files fs)
        [fd := \<lparr>of_in_use = True, of_dirent_idx = int idx, of_size = de_size de,
                of_pos = (if flags AND FS_O_APPEND \<noteq> 0 then de_size de else 0),
                of_first_cluster = de_first_cluster de, of_flags = flags\<rparr>]\<rparr>, int fd))"

definition fs_create :: "fs_state \<Rightarrow> nat \<Rightarrow> string \<Rightarrow> u32 \<Rightarrow> fs_state \<times> int" where
  "fs_create fs fd path flags =
    (let idx = find_free_dirent fs in
     if idx < 0 then (fs, - 1)
     else
       let de = root_dir fs ! nat idx;
           de = \<lparr>de_name = fs_str_cpy (de_name de) path FS_MAX_FILENAME, de_size = 0,
                 de_first_cluster = FAT_EOF, de_flags = 0, de_reserved = 0\<rparr>;
           fs = fs\<lparr>root_dir := (root_dir fs)[nat idx := de]\<rparr>;
           (fs, r) = write_root_dir fs
       in if r \<noteq> 0 then
            (fs\<lparr>root_dir := (root_dir fs)[nat idx := de\<lparr>de_name := (de_name de)[0 := NUL]\<rparr>]\<rparr>, - 1)
          else install_fd fs fd (nat idx) flags)"

definition fs_truncate :: "fs_state \<Rightarrow> nat \<Rightarrow> fs_state option" where
  "fs_truncate fs idx =
    (if de_first_cluster (root_dir fs ! idx) \<noteq> FAT_EOF then
       case free_cluster_chain fs (de_first_cluster (root_dir fs ! idx)) of
         None \<Rightarrow> None
       | Some fs \<Rightarrow>
           let fs = fs\<lparr>root_dir := (root_dir fs)
                 [idx := (root_dir fs ! idx)\<lparr>de_first_cluster := FAT_EOF, de_size := 0\<rparr>]\<rparr>
           in Some (fst (write_root_dir (fst (write_fat fs))))
     else Some fs)"

definition fs_open :: "fs_state \<Rightarrow> string \<Rightarrow> u32 \<Rightarrow> (fs_state \<times> int) option" where
  "fs_open fs path flags =
    (if \<not> fs_is_mounted fs then Some (fs, - 1)
     else
       let path = (if deref path = CHR ''/'' then tl path else path) in
       if deref path = NUL then Some (fs, - 1)
       else
         let fd = find_free_fd (open_files fs) 0 in
         if fd < 0 then Some (fs, - 1)
         else
           let idx = find_file fs path in
           if idx < 0 then
             if flags AND FS_O_CREATE = 0 then Some (fs, - 1)
             else Some (fs_create fs (nat fd) path flags)
           else if flags AND FS_O_TRUNC \<noteq> 0 then
             case fs_truncate fs (nat idx) of
               None \<Rightarrow> None
             | Some fs \<Rightarrow> Some (install_fd fs (nat fd) (nat idx) flags)
           else Some (install_fd fs (nat fd) (nat idx) flags))"

definition fs_close :: "fs_state \<Rightarrow> int \<Rightarrow> fs_state \<times> int" where
  "fs_close fs fd =
    (if fd < 0 \<or> fd \<ge> int FS_MAX_OPEN then (fs, - 1)
     else if \<not> of_in_use (open_files fs ! nat fd) then (fs, - 1)
     else (fs\<lparr>open_files := (open_files fs)
             [nat fd := (open_files fs ! nat fd)\<lparr>of_in_use := False\<rparr>]\<rparr>, 0))"

definition fs_size :: "fs_state \<Rightarrow> int \<Rightarrow> int" where
  "fs_size fs fd =
    (if fd < 0 \<or> fd \<ge> int FS_MAX_OPEN then - 1
     else if \<not> of_in_use (open_files fs ! nat fd) then - 1
     else sint (of_size (open_files fs ! nat fd)))"

subsection \<open>Read and write\<close>

text \<open>
  \<^verbatim>\<open>len\<close>, \<^verbatim>\<open>bytes_read\<close> and \<^verbatim>\<open>bytes_written\<close> are C ints; the counts stay between 0
  and the \<^verbatim>\<open>len\<close> of the call, so they are integers here. The position and the size of
  an open file are 32-bit words. The caller's buffer is the list of its bytes; \<^verbatim>\<open>fs_read\<close>
  returns the bytes it copied out.
\<close>

definition write_chunk :: "u32 \<Rightarrow> int \<Rightarrow> u32" where
  "write_chunk pos len =
    (let sector_offset = (pos mod FS_CLUSTER_SIZE) mod 512;
         to_copy = 512 - sector_offset
     in if sint to_copy > len then word_of_int len else to_copy)"

definition read_chunk :: "u32 \<Rightarrow> u32 \<Rightarrow> int \<Rightarrow> u32" where
  "read_chunk pos sz len =
    (let to_copy = write_chunk pos len
     in if pos + to_copy > sz then sz - pos else to_copy)"

lemma unat_word_of_int:
  "0 \<le> len \<Longrightarrow> len < 2 ^ 32 \<Longrightarrow> unat (word_of_int len :: u32) = nat len"
proof -
  assume a: "0 \<le> len" "len < 2 ^ 32"
  then have "nat len < 2 ^ 32" by (simp add: nat_less_iff)
  then have "unat (of_nat (nat len) :: u32) = nat len"
    by (simp add: unat_of_nat)
  then show ?thesis using a by simp
qed

lemma sint_small: "unat (t :: u32) \<le> 512 \<Longrightarrow> sint t = int (unat t)"
proof -
  assume "unat t \<le> 512"
  then have "t \<le> 512" by (simp add: word_le_nat_alt)
  then have "uint t \<le> uint (512 :: u32)" by (simp only: word_le_def)
  then have u: "uint t \<le> 512" by simp
  have "signed_take_bit 31 (uint t) = uint t"
  proof (rule signed_take_bit_int_eq_self)
    show "- (2 ^ 31) \<le> uint t" by (rule order_trans [where y = 0]) simp_all
    show "uint t < 2 ^ 31" using u by simp
  qed
  then show ?thesis by (simp add: sint_uint)
qed

lemma sector_offset_less: "unat (((pos :: u32) mod FS_CLUSTER_SIZE) mod 512) < 512"
proof -
  have "(pos mod FS_CLUSTER_SIZE) mod 512 < 512"
    by (rule word_mod_less_divisor) simp
  then show ?thesis by (simp add: word_less_nat_alt)
qed

lemma unat_room:
  "unat (512 - ((pos :: u32) mod FS_CLUSTER_SIZE) mod 512) =
     512 - unat ((pos mod FS_CLUSTER_SIZE) mod 512)"
proof -
  have "(pos mod FS_CLUSTER_SIZE) mod 512 \<le> 512"
    using sector_offset_less [of pos] by (simp add: word_le_nat_alt)
  then show ?thesis by (simp add: unat_sub)
qed

lemma write_chunk_uint:
  assumes "0 < len"
  shows "uint (write_chunk pos len) =
     min (512 - uint ((pos mod FS_CLUSTER_SIZE) mod 512)) len"
proof -
  define so where "so = (pos mod FS_CLUSTER_SIZE) mod 512"
  define t1 where "t1 = 512 - so"
  have so: "unat so < 512" unfolding so_def by (rule sector_offset_less)
  have u1: "unat t1 = 512 - unat so" unfolding t1_def so_def by (rule unat_room)
  have s1: "sint t1 = int (unat t1)" by (rule sint_small) (simp add: u1)
  have i1: "int (unat t1) = 512 - int (unat so)" using u1 so by simp
  show ?thesis
  proof (cases "sint t1 > len")
    case True
    have "sint t1 < 2 ^ (LENGTH(32) - 1)" by (rule sint_lt)
    then have "len < 2 ^ 32" using True by simp
    then have "unat (word_of_int len :: u32) = nat len"
      using assms by (intro unat_word_of_int) simp_all
    then have "int (unat (word_of_int len :: u32)) = len" using assms by simp
    then have "int (unat (write_chunk pos len)) = min (512 - int (unat so)) len"
      using True s1 i1
      by (simp add: write_chunk_def Let_def so_def [symmetric] t1_def [symmetric]
          del: of_nat_unat)
    then show ?thesis by (simp add: so_def)
  next
    case False
    then have "int (unat (write_chunk pos len)) = min (512 - int (unat so)) len"
      using s1 i1
      by (simp add: write_chunk_def Let_def so_def [symmetric] t1_def [symmetric]
          del: of_nat_unat)
    then show ?thesis by (simp add: so_def)
  qed
qed

lemma write_chunk_pos: "0 < len \<Longrightarrow> 0 < uint (write_chunk pos len)"
proof -
  assume a: "0 < len"
  have "unat ((pos mod FS_CLUSTER_SIZE) mod 512) < 512" by (rule sector_offset_less)
  then have "uint ((pos mod FS_CLUSTER_SIZE) mod 512) < 512"
    by (simp add: unat_eq_nat_uint nat_less_iff del: nat_uint_eq)
  then show ?thesis using a by (simp add: write_chunk_uint)
qed


lemma read_chunk_pos:
  assumes "0 < len" and "pos < sz"
  shows "0 < uint (read_chunk pos sz len)"
proof -
  have "sz - pos \<noteq> 0" using assms(2) by auto
  moreover have "write_chunk pos len \<noteq> 0"
    using write_chunk_pos [OF assms(1), of pos] by auto
  ultimately have "read_chunk pos sz len \<noteq> 0"
    by (simp add: read_chunk_def Let_def)
  then show ?thesis by (simp add: word_neq_0_conv word_less_def)
qed

fun read_walk :: "u16 list \<Rightarrow> u16 \<Rightarrow> nat \<Rightarrow> u16 option" where
  "read_walk ft cluster 0 = Some cluster"
| "read_walk ft cluster (Suc n) =
    (if cluster \<noteq> FAT_EOF then
       if unat cluster < length ft then read_walk ft (ft ! unat cluster) n else None
     else Some cluster)"

definition set_pos :: "fs_state \<Rightarrow> nat \<Rightarrow> u32 \<Rightarrow> fs_state" where
  "set_pos fs fd p =
    fs\<lparr>open_files := (open_files fs)[fd := (open_files fs ! fd)\<lparr>of_pos := p\<rparr>]\<rparr>"

function fs_read_loop ::
  "fs_state \<Rightarrow> nat \<Rightarrow> u8 list \<Rightarrow> int \<Rightarrow> int \<Rightarrow> (fs_state \<times> u8 list \<times> int) option" where
  "fs_read_loop fs fd out len bytes_read =
    (if 0 < len \<and> of_pos (open_files fs ! fd) < of_size (open_files fs ! fd) then
       let f = open_files fs ! fd;
           cluster_num = of_pos f div FS_CLUSTER_SIZE;
           cluster_offset = of_pos f mod FS_CLUSTER_SIZE
       in case read_walk (fat fs) (of_first_cluster f) (unat cluster_num) of
            None \<Rightarrow> None
          | Some cluster \<Rightarrow>
              if cluster = FAT_EOF \<or> cluster = FAT_FREE then Some (fs, out, bytes_read)
              else
                let sector_in_cluster = cluster_offset div 512;
                    sector_offset = cluster_offset mod 512;
                    sector = cluster_to_sector cluster + sector_in_cluster
                in case read_sector fs (ucast sector) of
                     None \<Rightarrow> Some (fs, out, if bytes_read > 0 then bytes_read else - 1)
                   | Some data \<Rightarrow>
                       fs_read_loop
                         (set_pos (fs\<lparr>sector_buf := data\<rparr>) fd
                            (of_pos f + read_chunk (of_pos f) (of_size f) len))
                         fd
                         (out @ take (unat (read_chunk (of_pos f) (of_size f) len))
                                  (drop (unat sector_offset) data))
                         (len - uint (read_chunk (of_pos f) (of_size f) len))
                         (bytes_read + uint (read_chunk (of_pos f) (of_size f) len))
     else Some (fs, out, bytes_read))"
  by pat_completeness auto

termination
  by (relation "measure (\<lambda>(fs, fd, out, len, bytes_read). nat len)")
    (auto simp: read_chunk_pos)

declare fs_read_loop.simps [simp del]

definition fs_read :: "fs_state \<Rightarrow> int \<Rightarrow> int \<Rightarrow> (fs_state \<times> u8 list \<times> int) option" where
  "fs_read fs fd len =
    (if fd < 0 \<or> fd \<ge> int FS_MAX_OPEN then Some (fs, [], - 1)
     else if \<not> of_in_use (open_files fs ! nat fd) then Some (fs, [], - 1)
     else if of_flags (open_files fs ! nat fd) AND FS_O_READ = 0 then Some (fs, [], - 1)
     else fs_read_loop fs (nat fd) [] len 0)"

text \<open>
  \<^verbatim>\<open>fs_write\<close>: the outcome of looking for the cluster of the position. \<^verbatim>\<open>NAV_FULL\<close> is
  the return after \<^verbatim>\<open>alloc_cluster\<close> gave -1, with the state at that return.
\<close>

datatype nav = NAV_FULL fs_state | NAV_AT fs_state u16

definition flush_metadata :: "fs_state \<Rightarrow> fs_state" where
  "flush_metadata fs = fst (write_superblock (fst (write_root_dir (fst (write_fat fs)))))"

definition first_cluster :: "fs_state \<Rightarrow> nat \<Rightarrow> nav option" where
  "first_cluster fs fd =
    (let f = open_files fs ! fd in
     if of_first_cluster f = FAT_EOF then
       case alloc_cluster fs of
         None \<Rightarrow> None
       | Some (fs, new_cluster) \<Rightarrow>
           if new_cluster < 0 then Some (NAV_FULL fs)
           else if of_dirent_idx f < 0 \<or> int (length (root_dir fs)) \<le> of_dirent_idx f then None
           else
             let cluster = word_of_int new_cluster; idx = nat (of_dirent_idx f)
             in Some (NAV_AT
                  (fs\<lparr>open_files := (open_files fs)[fd := f\<lparr>of_first_cluster := cluster\<rparr>],
                      root_dir := (root_dir fs)
                        [idx := (root_dir fs ! idx)\<lparr>de_first_cluster := cluster\<rparr>]\<rparr>)
                  cluster)
     else Some (NAV_AT fs (of_first_cluster f)))"

fun navigate :: "fs_state \<Rightarrow> u16 \<Rightarrow> nat \<Rightarrow> nav option" where
  "navigate fs cluster 0 = Some (NAV_AT fs cluster)"
| "navigate fs cluster (Suc n) =
    (if unat cluster < length (fat fs) then
       if fat fs ! unat cluster = FAT_EOF then
         case alloc_cluster fs of
           None \<Rightarrow> None
         | Some (fs1, new_cluster) \<Rightarrow>
             if new_cluster < 0 then Some (NAV_FULL (flush_metadata fs1))
             else navigate (fs1\<lparr>fat := (fat fs1)[unat cluster := word_of_int new_cluster]\<rparr>)
                    (((fat fs1)[unat cluster := word_of_int new_cluster]) ! unat cluster) n
       else navigate fs (fat fs ! unat cluster) n
     else None)"

text \<open>
  The sector of the position within the cluster, and the content of \<^verbatim>\<open>sector_buf\<close> when it
  is written out: read first unless a whole sector is replaced (zeroes when that read
  fails), then overlaid with the bytes of the caller.
\<close>

definition data_sector :: "fs_state \<Rightarrow> nat \<Rightarrow> u16 \<Rightarrow> u32" where
  "data_sector fs fd cluster =
    (let cluster_offset = of_pos (open_files fs ! fd) mod FS_CLUSTER_SIZE;
         sector_in_cluster = cluster_offset div 512
     in cluster_to_sector cluster + sector_in_cluster)"

definition rmw_buffer :: "fs_state \<Rightarrow> nat \<Rightarrow> u16 \<Rightarrow> u8 list \<Rightarrow> int \<Rightarrow> u8 list" where
  "rmw_buffer fs fd cluster inp len =
    (let f = open_files fs ! fd;
         cluster_offset = of_pos f mod FS_CLUSTER_SIZE;
         sector_offset = cluster_offset mod 512;
         buf = (if sector_offset \<noteq> 0 \<or> len < 512 then
                  case read_sector fs (ucast (data_sector fs fd cluster)) of
                    None \<Rightarrow> replicate 512 0
                  | Some data \<Rightarrow> data
                else sector_buf fs);
         to_copy = write_chunk (of_pos f) len
     in take (unat sector_offset) buf @ take (unat to_copy) inp @
        drop (unat sector_offset + unat to_copy) buf)"

definition write_data :: "fs_state \<Rightarrow> nat \<Rightarrow> u16 \<Rightarrow> u8 list \<Rightarrow> int \<Rightarrow> fs_state \<times> int" where
  "write_data fs fd cluster inp len =
    (case blk_write (dev fs) (ucast (data_sector fs fd cluster)) 1
            (rmw_buffer fs fd cluster inp len) of
       None \<Rightarrow> (fs\<lparr>sector_buf := rmw_buffer fs fd cluster inp len\<rparr>, - 1)
     | Some d \<Rightarrow> (fs\<lparr>sector_buf := rmw_buffer fs fd cluster inp len, dev := d\<rparr>, 0))"

definition advance :: "fs_state \<Rightarrow> nat \<Rightarrow> u32 \<Rightarrow> fs_state option" where
  "advance fs fd to_copy =
    (let f = open_files fs ! fd;
         f = f\<lparr>of_pos := of_pos f + to_copy\<rparr>
     in if of_pos f > of_size f then
          if of_dirent_idx f < 0 \<or> int (length (root_dir fs)) \<le> of_dirent_idx f then None
          else
            let idx = nat (of_dirent_idx f)
            in Some (fs\<lparr>open_files := (open_files fs)[fd := f\<lparr>of_size := of_pos f\<rparr>],
                        root_dir := (root_dir fs)[idx := (root_dir fs ! idx)\<lparr>de_size := of_pos f\<rparr>]\<rparr>)
        else Some (fs\<lparr>open_files := (open_files fs)[fd := f]\<rparr>))"

definition short_count :: "int \<Rightarrow> int" where
  "short_count bytes_written = (if bytes_written > 0 then bytes_written else - 1)"

function fs_write_loop ::
  "fs_state \<Rightarrow> nat \<Rightarrow> u8 list \<Rightarrow> int \<Rightarrow> int \<Rightarrow> (fs_state \<times> int) option" where
  "fs_write_loop fs fd inp len bytes_written =
    (if 0 < len then
       case first_cluster fs fd of
         None \<Rightarrow> None
       | Some (NAV_FULL fs1) \<Rightarrow> Some (fs1, short_count bytes_written)
       | Some (NAV_AT fs1 c1) \<Rightarrow>
           (case navigate fs1 c1 (unat (of_pos (open_files fs ! fd) div FS_CLUSTER_SIZE)) of
              None \<Rightarrow> None
            | Some (NAV_FULL fs2) \<Rightarrow> Some (fs2, short_count bytes_written)
            | Some (NAV_AT fs2 cluster) \<Rightarrow>
                if snd (write_data fs2 fd cluster inp len) \<noteq> 0
                then Some (fst (write_data fs2 fd cluster inp len), short_count bytes_written)
                else
                  (case advance (fst (write_data fs2 fd cluster inp len)) fd
                          (write_chunk (of_pos (open_files fs ! fd)) len) of
                     None \<Rightarrow> None
                   | Some fs3 \<Rightarrow>
                       fs_write_loop fs3 fd
                         (drop (unat (write_chunk (of_pos (open_files fs ! fd)) len)) inp)
                         (len - uint (write_chunk (of_pos (open_files fs ! fd)) len))
                         (bytes_written + uint (write_chunk (of_pos (open_files fs ! fd)) len))))
     else Some (flush_metadata fs, bytes_written))"
  by pat_completeness auto

termination
  by (relation "measure (\<lambda>(fs, fd, inp, len, bytes_written). nat len)")
    (auto simp: write_chunk_pos)

declare fs_write_loop.simps [simp del]

text \<open>Reading \<^verbatim>\<open>len\<close> bytes from a shorter buffer is undefined behaviour.\<close>

definition fs_write :: "fs_state \<Rightarrow> int \<Rightarrow> u8 list \<Rightarrow> int \<Rightarrow> (fs_state \<times> int) option" where
  "fs_write fs fd buf len =
    (if fd < 0 \<or> fd \<ge> int FS_MAX_OPEN then Some (fs, - 1)
     else if \<not> of_in_use (open_files fs ! nat fd) then Some (fs, - 1)
     else if of_flags (open_files fs ! nat fd) AND FS_O_WRITE = 0 then Some (fs, - 1)
     else if int (length buf) < len then None
     else fs_write_loop fs (nat fd) buf len 0)"

subsection \<open>The round trip on a disk of 2 TiB\<close>

text \<open>
  The sequence of the round trip: format, open for writing with create, write, close, open
  for reading, read, size. It yields the count and the bytes \<^verbatim>\<open>fs_read\<close> returns and the
  value of \<^verbatim>\<open>fs_size\<close>.
\<close>

definition round_trip :: "fs_state \<Rightarrow> string \<Rightarrow> u8 list \<Rightarrow> (int \<times> u8 list \<times> int) option" where
  "round_trip fs name b =
    (case fs_open (fst (fs_format fs)) name (FS_O_WRITE OR FS_O_CREATE) of
       None \<Rightarrow> None
     | Some (fs1, fd) \<Rightarrow>
         (case fs_write fs1 fd b (int (length b)) of
            None \<Rightarrow> None
          | Some (fs2, w) \<Rightarrow>
              (case fs_open (fst (fs_close fs2 fd)) name FS_O_READ of
                 None \<Rightarrow> None
               | Some (fs3, fd2) \<Rightarrow>
                   (case fs_read fs3 fd2 (int (length b)) of
                      None \<Rightarrow> None
                    | Some (fs4, buf, r) \<Rightarrow> Some (r, buf, fs_size fs4 fd2)))))"

definition disk0 :: blk_dev where
  "disk0 = \<lparr>blk_initialized = True, capacity = 64, sectors = (\<lambda>s i. 0),
     fail_read = (\<lambda>s. False), fail_write = (\<lambda>s. False)\<rparr>"

definition fs0 :: fs_state where
  "fs0 = \<lparr>dev = disk0,
     superblock = \<lparr>sb_magic = 0, sb_version = 0, sb_total_sectors = 0, sb_total_clusters = 0,
       sb_free_clusters = 0, sb_fat_start = 0, sb_fat_sectors = 0, sb_root_start = 0,
       sb_root_sectors = 0, sb_data_start = 0\<rparr>,
     fat = replicate 2048 0, root_dir = replicate 64 zero_dirent,
     open_files = replicate 8 zero_open_file, fs_is_mounted = False,
     sector_buf = replicate 512 0\<rparr>"

definition hello_bytes :: "u8 list" where
  "hello_bytes = [104, 101, 108, 108, 111]"

definition fs_2tib :: fs_state where
  "fs_2tib = fs0\<lparr>dev := disk0\<lparr>capacity := 0x100000000\<rparr>\<rparr>"

lemma fs_2tib_format: "fs_format fs_2tib = (fs_2tib, - 1)"
  by (simp add: fs_format_def fs_2tib_def disk0_def blk_available_def Let_def)

lemma fs_2tib_unmounted: "\<not> fs_is_mounted fs_2tib"
  by (simp add: fs_2tib_def fs0_def)

lemma fs_unmounted_open: "\<not> fs_is_mounted fs \<Longrightarrow> fs_open fs name flags = Some (fs, - 1)"
  by (simp add: fs_open_def)

text \<open>
  C1 (TinyFS round trip). On a working disk of 0x100000000 sectors (2 TiB, far above 32
  sectors), booted and not yet formatted, \<^verbatim>\<open>fs_format\<close> returns -1: the 64-bit capacity is
  narrowed to the 32-bit \<^verbatim>\<open>total_sectors\<close>, which is 0 and so below 32. The file system stays
  unmounted, both \<^verbatim>\<open>fs_open\<close> calls return -1, and \<^verbatim>\<open>fs_read\<close> and \<^verbatim>\<open>fs_size\<close> return -1
  instead of 5 for the file \<^verbatim>\<open>a\<close> with the content \<^verbatim>\<open>hello\<close>.
\<close>

theorem fs_round_trip_2tib:
  "blk_available (dev fs_2tib) \<and> capacity (dev fs_2tib) = 0x100000000 \<and>
   (\<forall>s. \<not> fail_read (dev fs_2tib) s \<and> \<not> fail_write (dev fs_2tib) s) \<and>
   snd (fs_format fs_2tib) = - 1 \<and>
   round_trip fs_2tib ''a'' hello_bytes = Some (- 1, [], - 1)"
  by (simp add: round_trip_def fs_2tib_format fs_unmounted_open fs_2tib_unmounted
      fs_write_def fs_close_def fs_read_def fs_size_def)
    (simp add: fs_2tib_def disk0_def blk_available_def)

subsection \<open>Short counts of \<^verbatim>\<open>fs_write\<close>\<close>
























subsection \<open>The state of the counterexample is reached by format and open\<close>






lemma replicate_update_0:
  "0 < n \<Longrightarrow> (replicate n z)[0 := e] = e # replicate (n - 1) z"
  by (cases n) simp_all

lemma r2048: "(replicate 2048 (0 :: u16))[0 := e] = e # replicate 2047 0"
  by (simp add: replicate_update_0)

lemma r64: "(replicate 64 (z :: fs_dirent))[0 := e] = e # replicate 63 z"
  by (simp add: replicate_update_0)

lemma r8: "(replicate 8 (z :: open_file))[0 := e] = e # replicate 7 z"
  by (simp add: replicate_update_0)
























end
